theory Spec2Isabelle
  imports Complex_Main "HOL-Library.Multiset" "HOL-Library.Product_Lexorder"
begin

section \<open>Python values and exceptions\<close>

text \<open>
  The generators work on Python integers that are never negative (vertex counts, edge
  counts, degrees, budgets), so they are natural numbers here; only the \<open>g\<close> and
  \<open>w\<close> columns of a spec row, which hold the sentinel \<open>-1\<close> in composite rows, are
  integers. An exception is a value \<open>Inl err\<close>; a normal result is \<open>Inr x\<close>.
\<close>

datatype py_error = KeyError | IndexError | ValueError | ZeroDivisionError

text \<open>A \<open>for\<close> loop over a list whose body may raise: the first exception ends the loop.\<close>

fun for_each :: "('a \<Rightarrow> 's \<Rightarrow> py_error + 's) \<Rightarrow> 'a list \<Rightarrow> 's \<Rightarrow> py_error + 's" where
  "for_each body [] s = Inr s"
| "for_each body (x # xs) s =
     (case body x s of Inl err \<Rightarrow> Inl err | Inr s' \<Rightarrow> for_each body xs s')"

text \<open>Python's \<open>max\<close> of a list: \<open>ValueError\<close> on the empty list.\<close>

fun py_max :: "nat list \<Rightarrow> py_error + nat" where
  "py_max [] = Inl ValueError"
| "py_max (x # xs) = Inr (fold max xs x)"

text \<open>
  A Python \<open>set\<close> built from a sequence is modelled by the list of its distinct elements
  in the order of first insertion. Python iterates a set in hash order; no property proved
  below depends on the order chosen.
\<close>

fun py_set :: "'a list \<Rightarrow> 'a list" where
  "py_set [] = []"
| "py_set (x # xs) = x # filter (\<lambda>y. y \<noteq> x) (py_set xs)"

section \<open>itertools\<close>

text \<open>\<open>itertools.combinations(range(n), 2)\<close>: the pairs \<open>(i, j)\<close> with \<open>i < j < n\<close>, in
  lexicographic order.\<close>

definition combinations2 :: "nat \<Rightarrow> (nat \<times> nat) list" where
  "combinations2 n = concat (map (\<lambda>i. map (Pair i) [Suc i..<n]) [0..<n])"

text \<open>\<open>itertools.permutations(xs)\<close>: every ordering of the positions of \<open>xs\<close>, in
  lexicographic order of the positions (equal elements at different positions give the
  same tuple twice).\<close>

function permutations :: "'a list \<Rightarrow> 'a list list" where
  "permutations [] = [[]]"
| "permutations (x # xs) =
     concat (map (\<lambda>i. map ((#) ((x # xs) ! i))
                         (permutations (take i (x # xs) @ drop (Suc i) (x # xs))))
                 [0..<Suc (length xs)])"
  by pat_completeness auto
termination
  by (relation "measure length") auto

text \<open>\<open>itertools.product(*[range(c) for c in counts])\<close> is \<open>product_lists\<close> of the
  ranges: the last position varies fastest.\<close>

definition product_ranges :: "nat list \<Rightarrow> nat list list" where
  "product_ranges counts = product_lists (map (\<lambda>c. [0..<c]) counts)"

section \<open>Integer partitions\<close>

text \<open>
  Modelled from the spec: \<open>int_partition_unordered\<close> and \<open>int_partition_ordered\<close> belong
  to \<open>energyflow.algorithms\<close>, which is not among the source files. The spec names them
  "unordered integer partitions of n" and "all ordered integer partitions of d into
  exactly e positive parts". An unordered partition is listed once, with its parts in
  ascending order; \<open>parts_from m n\<close> lists the partitions of \<open>n\<close> whose parts are at
  least \<open>m\<close>.
\<close>

function parts_from :: "nat \<Rightarrow> nat \<Rightarrow> nat list list" where
  "parts_from m n =
     (if n = 0 then [[]]
      else concat (map (\<lambda>k. map ((#) k) (parts_from k (n - k))) [max 1 m..<Suc n]))"
  by pat_completeness auto
termination
  by (relation "measure snd") auto

declare parts_from.simps [simp del]

definition int_partition_unordered :: "nat \<Rightarrow> nat list list" where
  "int_partition_unordered n = parts_from 1 n"

fun int_partition_ordered :: "nat \<Rightarrow> nat \<Rightarrow> nat list list" where
  "int_partition_ordered d 0 = (if d = 0 then [[]] else [])"
| "int_partition_ordered d (Suc e) =
     concat (map (\<lambda>k. map ((#) k) (int_partition_ordered (d - k) e)) [1..<Suc d])"

section \<open>Graphs (the igraph operations the generator calls)\<close>

text \<open>
  An undirected \<open>igraph.Graph\<close>: the number of vertices and the edges in the order they
  were added, which is the order \<open>get_edgelist()\<close> returns them in. Every edge the
  generator adds is a pair \<open>(a, b)\<close> with \<open>a < b\<close> of existing vertices.
\<close>

type_synonym edge = "nat \<times> nat"

record graph =
  vcount :: nat
  edgelist :: "edge list"

definition Full2 :: graph where
  "Full2 = \<lparr>vcount = 2, edgelist = [(0, 1)]\<rparr>"

definition add_vertices :: "nat \<Rightarrow> graph \<Rightarrow> graph" where
  "add_vertices k g = g\<lparr>vcount := vcount g + k\<rparr>"

definition add_edges :: "edge list \<Rightarrow> graph \<Rightarrow> graph" where
  "add_edges new g = g\<lparr>edgelist := edgelist g @ new\<rparr>"

definition get_edgelist :: "graph \<Rightarrow> edge list" where
  "get_edgelist g = edgelist g"

definition degree :: "graph \<Rightarrow> nat \<Rightarrow> nat" where
  "degree g v = length (filter (\<lambda>e. fst e = v) (edgelist g))
              + length (filter (\<lambda>e. snd e = v) (edgelist g))"

text \<open>\<open>maxdegree()\<close> and \<open>max(strength(weights=...))\<close> are taken over the vertices; the graphs
  of the generator have at least two vertices, so the maximum is over a non-empty list.\<close>

definition maxdegree :: "graph \<Rightarrow> nat" where
  "maxdegree g = fold max (map (degree g) [0..<vcount g]) 0"

definition strength :: "graph \<Rightarrow> nat list \<Rightarrow> nat list" where
  "strength g ws =
     map (\<lambda>v. sum_list (map snd (filter (\<lambda>(e, w). fst e = v \<or> snd e = v) (zip (edgelist g) ws))))
         [0..<vcount g]"

definition max_strength :: "graph \<Rightarrow> nat list \<Rightarrow> nat" where
  "max_strength g ws = fold max (strength g ws) 0"

subsection \<open>Isomorphism\<close>

text \<open>
  \<open>Graph.isomorphic\<close> and \<open>Graph.isomorphic_vf2\<close> with edge colours decide whether a
  relabelling of the vertices carries the (coloured) edges of the first graph onto those
  of the second. A relabelling is a permutation \<open>p\<close> of \<open>[0..<n]\<close>, read as \<open>i \<mapsto> p ! i\<close>.
\<close>

definition norm_edge :: "edge \<Rightarrow> edge" where
  "norm_edge e = (min (fst e) (snd e), max (fst e) (snd e))"

definition relabel :: "nat list \<Rightarrow> nat \<Rightarrow> nat" where
  "relabel p a = (if a < length p then p ! a else a)"

definition relabel_edge :: "nat list \<Rightarrow> edge \<Rightarrow> edge" where
  "relabel_edge p e = norm_edge (relabel p (fst e), relabel p (snd e))"

definition colored_iso :: "nat \<Rightarrow> (edge \<times> 'c) list \<Rightarrow> (edge \<times> 'c) list \<Rightarrow> bool" where
  "colored_iso n E1 E2 =
     (\<exists>p \<in> set (permutations [0..<n]).
        mset (map (\<lambda>(e, c). (relabel_edge p e, c)) E1) = mset (map (\<lambda>(e, c). (norm_edge e, c)) E2))"

definition isomorphic :: "graph \<Rightarrow> graph \<Rightarrow> bool" where
  "isomorphic g h =
     (vcount g = vcount h \<and>
      colored_iso (vcount g) (map (\<lambda>e. (e, ())) (edgelist g)) (map (\<lambda>e. (e, ())) (edgelist h)))"

definition isomorphic_vf2 :: "graph \<Rightarrow> nat list \<Rightarrow> nat list \<Rightarrow> bool" where
  "isomorphic_vf2 g color1 color2 =
     colored_iso (vcount g) (zip (edgelist g) color1) (zip (edgelist g) color2)"

section \<open>PrimeGenerator\<close>

text \<open>
  The variable-elimination object \<open>self.ve\<close> (class \<open>VariableElimination\<close> of
  \<open>energyflow.algorithms\<close>, not among the source files) enters only through the
  complexity it reports: \<open>ve edges n\<close> stands for \<open>self.ve.chi\<close> after
  \<open>self.ve.run(edges, n)\<close>, and is a parameter of the generator. The einsum strings and
  paths it also returns are stored beside \<open>chis_d\<close> and never read by the generator;
  they are left out.
\<close>

type_synonym ve = "edge list \<Rightarrow> nat \<Rightarrow> nat"

record params =
  dmax :: nat
  nmax :: nat
  emax :: nat
  cmax :: nat
  vmax :: nat

definition mk_params ::
  "nat \<Rightarrow> nat option \<Rightarrow> nat option \<Rightarrow> nat option \<Rightarrow> nat option \<Rightarrow> params" where
  "mk_params dmax' nmax' emax' cmax' vmax' =
     (let nm = (case nmax' of Some x \<Rightarrow> x | None \<Rightarrow> dmax' + 1) in
      \<lparr>dmax = dmax',
       nmax = nm,
       emax = (case emax' of Some x \<Rightarrow> x | None \<Rightarrow> dmax'),
       cmax = (case cmax' of Some x \<Rightarrow> x | None \<Rightarrow> nm),
       vmax = (case vmax' of Some x \<Rightarrow> x | None \<Rightarrow> dmax')\<rparr>)"

definition ns :: "params \<Rightarrow> nat list" where
  "ns P = [2..<nmax P + 1]"

text \<open>\<open>int(n/2*(n-1))\<close> is \<open>n*(n-1)/2\<close>, an integer.\<close>

definition emaxs :: "params \<Rightarrow> nat \<Rightarrow> nat" where
  "emaxs P n = min (emax P) (n * (n - 1) div 2)"

definition esbyn :: "params \<Rightarrow> nat \<Rightarrow> nat list" where
  "esbyn P n = [n - 1..<emaxs P n + 1]"

definition dmaxs :: "params \<Rightarrow> nat \<times> nat \<Rightarrow> nat" where
  "dmaxs P ne = dmax P"

text \<open>
  The storage containers \<open>simple_graphs_d\<close>, \<open>edges_d\<close>, \<open>chis_d\<close>, \<open>vs_d\<close> and
  \<open>weights_d\<close> are dictionaries with one and the same key set, the pairs \<open>(n, e)\<close>; they
  are one dictionary from \<open>(n, e)\<close> to a bucket holding the five lists.
\<close>

record bucket =
  simple_graphs :: "graph list"
  edges :: "edge list list"
  chis :: "nat list"
  vs :: "nat list"
  weights :: "nat list list list"

type_synonym store = "((nat \<times> nat) \<times> bucket) list"

definition bucket_keys :: "params \<Rightarrow> (nat \<times> nat) list" where
  "bucket_keys P = concat (map (\<lambda>n. map (Pair n) (esbyn P n)) (ns P))"

definition empty_bucket :: bucket where
  "empty_bucket = \<lparr>simple_graphs = [], edges = [], chis = [], vs = [], weights = []\<rparr>"

definition init_store :: "params \<Rightarrow> store" where
  "init_store P = map (\<lambda>ne. (ne, empty_bucket)) (bucket_keys P)"

definition put :: "nat \<times> nat \<Rightarrow> bucket \<Rightarrow> store \<Rightarrow> store" where
  "put ne b st = map (\<lambda>(k, v). if k = ne then (k, b) else (k, v)) st"

definition add_if_new :: "ve \<Rightarrow> params \<Rightarrow> graph \<Rightarrow> nat \<times> nat \<Rightarrow> store \<Rightarrow> py_error + store" where
  "add_if_new chi P new_graph ne st =
     (case map_of st ne of
        None \<Rightarrow> Inl KeyError
      | Some b \<Rightarrow>
          if list_ex (\<lambda>graph. isomorphic new_graph graph) (simple_graphs b) then Inr st
          else
            let new_edges = get_edgelist new_graph;
                c = chi new_edges (fst ne)
            in if c > cmax P then Inr st
               else
                 let maxv = maxdegree new_graph
                 in if maxv > vmax P then Inr st
                    else Inr (put ne (b\<lparr>simple_graphs := simple_graphs b @ [new_graph],
                                          edges := edges b @ [new_edges],
                                          chis := chis b @ [c],
                                          vs := vs b @ [maxv]\<rparr>) st))"

definition edge_filter :: "nat \<Rightarrow> edge list \<Rightarrow> edge list" where
  "edge_filter n es = filter (\<lambda>edge. edge \<notin> set es) (combinations2 n)"

definition attach_vertex :: "nat \<Rightarrow> graph \<Rightarrow> nat \<Rightarrow> graph" where
  "attach_vertex n seed_graph v = add_edges [(v, n - 1)] (add_vertices 1 seed_graph)"

text \<open>The body of the loop over \<open>e\<close> in \<open>generate_simple\<close>. The bucket the candidates go to,
  \<open>(n, e)\<close>, is neither of the two buckets the seeds are read from.\<close>

definition grow_bucket :: "ve \<Rightarrow> params \<Rightarrow> nat \<Rightarrow> nat \<Rightarrow> store \<Rightarrow> py_error + store" where
  "grow_bucket chi P n e st =
     (case (if e - 1 \<in> set (esbyn P (n - 1)) then
              (case map_of st (n - 1, e - 1) of
                 None \<Rightarrow> Inl KeyError
               | Some b \<Rightarrow>
                   for_each (\<lambda>seed_graph.
                       for_each (\<lambda>v. add_if_new chi P (attach_vertex n seed_graph v) (n, e))
                                [0..<n - 1])
                     (simple_graphs b) st)
            else Inr st) of
        Inl err \<Rightarrow> Inl err
      | Inr st1 \<Rightarrow>
          if e - 1 \<in> set (esbyn P n) then
            (case map_of st1 (n, e - 1) of
               None \<Rightarrow> Inl KeyError
             | Some b \<Rightarrow>
                 for_each (\<lambda>(seed_graph, seed_edges).
                     for_each (\<lambda>new_edge. add_if_new chi P (add_edges [new_edge] seed_graph) (n, e))
                              (edge_filter n seed_edges))
                   (zip (simple_graphs b) (edges b)) st1)
          else Inr st1)"

definition generate_simple :: "ve \<Rightarrow> params \<Rightarrow> store \<Rightarrow> py_error + store" where
  "generate_simple chi P st =
     (case add_if_new chi P Full2 (2, 1) st of
        Inl err \<Rightarrow> Inl err
      | Inr st1 \<Rightarrow>
          for_each (\<lambda>n. for_each (\<lambda>e. grow_bucket chi P n e) (esbyn P n)) (tl (ns P)) st1)"

text \<open>One candidate partition of the weighting search for one graph: the body of the loop
  over \<open>part\<close> in \<open>generate_weights\<close>.\<close>

definition weight_step :: "params \<Rightarrow> graph \<Rightarrow> nat list \<Rightarrow> nat list list \<Rightarrow> nat list list" where
  "weight_step P graph part weightings =
     (if vmax P < dmax P \<and> max_strength graph part > vmax P then weightings
      else if list_ex (\<lambda>weighting. isomorphic_vf2 graph weighting part) weightings
           then weightings
           else weightings @ [part])"

text \<open>The dictionary \<open>parts\<close> only caches \<open>int_partition_ordered(d, e)\<close> for the pairs the
  loops below ask for.\<close>

definition weightings_for :: "params \<Rightarrow> graph \<Rightarrow> nat \<times> nat \<Rightarrow> nat list list" where
  "weightings_for P graph ne =
     fold (\<lambda>d. fold (weight_step P graph) (int_partition_ordered d (snd ne)))
          [snd ne..<dmaxs P ne + 1] []"

definition weigh_bucket :: "params \<Rightarrow> nat \<Rightarrow> nat \<Rightarrow> store \<Rightarrow> py_error + store" where
  "weigh_bucket P n e st =
     (case map_of st (n, e) of
        None \<Rightarrow> Inl KeyError
      | Some b \<Rightarrow>
          Inr (put (n, e)
                 (b\<lparr>weights := fold (\<lambda>graph ws. ws @ [weightings_for P graph (n, e)])
                                     (simple_graphs b) (weights b)\<rparr>) st))"

definition generate_weights :: "params \<Rightarrow> store \<Rightarrow> py_error + store" where
  "generate_weights P st =
     (case map_of st (2, 1) of
        None \<Rightarrow> Inl KeyError
      | Some b \<Rightarrow>
          for_each (\<lambda>n. for_each (\<lambda>e. weigh_bucket P n e) (esbyn P n)) (tl (ns P))
            (put (2, 1) (b\<lparr>weights := weights b @ [map (\<lambda>d. [d]) [1..<dmaxs P (2, 1) + 1]]\<rparr>) st))"

definition PrimeGenerator :: "ve \<Rightarrow> params \<Rightarrow> py_error + store" where
  "PrimeGenerator chi P =
     (case generate_simple chi P (init_store P) of
        Inl err \<Rightarrow> Inl err
      | Inr st \<Rightarrow> generate_weights P st)"

subsection \<open>The prime spec table\<close>

record spec_row =
  col_n :: nat
  col_e :: nat
  col_d :: nat
  col_v :: nat
  col_k :: nat
  col_g :: int
  col_w :: int
  col_c :: nat
  col_p :: nat

record results_state =
  ks :: "nat \<times> nat \<Rightarrow> nat option"
  g_next :: nat
  w_next :: nat
  c_specs :: "spec_row list"
  out_edges :: "edge list list"
  out_weights :: "nat list list"

definition add_row :: "nat \<Rightarrow> nat \<Rightarrow> nat \<Rightarrow> nat \<Rightarrow> nat list \<Rightarrow> results_state \<Rightarrow> results_state" where
  "add_row n e c v weighting rs =
     (let d = sum_list weighting;
          k = (case ks rs (n, d) of None \<Rightarrow> 0 | Some k' \<Rightarrow> k')
      in rs\<lparr>ks := (ks rs)((n, d) \<mapsto> k + 1),
            c_specs := c_specs rs @
              [\<lparr>col_n = n, col_e = e, col_d = d, col_v = v, col_k = k,
                col_g = int (g_next rs), col_w = int (w_next rs), col_c = c, col_p = 1\<rparr>],
            out_weights := out_weights rs @ [weighting],
            w_next := w_next rs + 1\<rparr>)"

definition add_graph ::
  "nat \<Rightarrow> nat \<Rightarrow> edge list \<times> nat list list \<times> nat \<times> nat \<Rightarrow> results_state \<Rightarrow> results_state" where
  "add_graph n e z rs =
     (case z of (edgs, wghts, c, v) \<Rightarrow>
        (let rs' = fold (add_row n e c v) wghts rs
         in rs'\<lparr>out_edges := out_edges rs' @ [edgs], g_next := g_next rs' + 1\<rparr>))"

definition results_bucket :: "store \<Rightarrow> nat \<times> nat \<Rightarrow> results_state \<Rightarrow> results_state" where
  "results_bucket st ne rs =
     (case map_of st ne of
        None \<Rightarrow> rs
      | Some b \<Rightarrow>
          fold (add_graph (fst ne) (snd ne))
               (zip (edges b) (zip (weights b) (zip (chis b) (vs b)))) rs)"

definition results :: "store \<Rightarrow> results_state" where
  "results st =
     fold (results_bucket st) (sort (map fst st))
       \<lparr>ks = Map.empty, g_next = 0, w_next = 0, c_specs = [], out_edges = [], out_weights = []\<rparr>"

section \<open>CompositeGenerator\<close>

text \<open>The argument \<open>dmaxs\<close>: \<open>None\<close>, an \<open>int\<close>, or a dictionary from \<open>n\<close> to the largest
  degree for \<open>n\<close> (its items, one per key).\<close>

datatype comp_dmaxs = DefaultDmaxs | IntDmaxs nat | DictDmaxs "(nat \<times> nat) list"

record composite_generator =
  cg_c_specs :: "spec_row list"
  cg_dmaxs :: "(nat \<times> nat) list"
  cg_ns :: "nat list"
  cg_ks :: "nat \<times> nat \<Rightarrow> nat option"
  cg_ndk2w :: "nat \<times> nat \<times> nat \<Rightarrow> int option"
  cg_nmax_avail :: nat

text \<open>\<open>np.max\<close> of a column of the prime table. On the empty table the column cannot be
  taken (the array of an empty list of rows has one dimension): \<open>IndexError\<close>.\<close>

definition column_max :: "(spec_row \<Rightarrow> nat) \<Rightarrow> spec_row list \<Rightarrow> py_error + nat" where
  "column_max col rows = (case py_max (map col rows) of Inl err \<Rightarrow> Inl IndexError | Inr m \<Rightarrow> Inr m)"

definition int_dmaxs :: "nat \<Rightarrow> (nat \<times> nat) list" where
  "int_dmaxs m = map (\<lambda>n. (n, m)) [4..<2 * m + 1]"

definition count_ks :: "spec_row list \<Rightarrow> nat \<times> nat \<Rightarrow> nat option" where
  "count_ks rows =
     fold (\<lambda>r m. m((col_n r, col_d r) \<mapsto>
                    (case m (col_n r, col_d r) of None \<Rightarrow> 0 | Some c \<Rightarrow> c) + 1))
          rows Map.empty"

definition index_ndk2w :: "spec_row list \<Rightarrow> nat \<times> nat \<times> nat \<Rightarrow> int option" where
  "index_ndk2w rows = fold (\<lambda>r m. m((col_n r, col_d r, col_k r) \<mapsto> col_w r)) rows Map.empty"

definition composite_init :: "spec_row list \<Rightarrow> comp_dmaxs \<Rightarrow> py_error + composite_generator" where
  "composite_init rows arg =
     (case (case arg of
              DictDmaxs items \<Rightarrow> Inr items
            | IntDmaxs m \<Rightarrow> Inr (int_dmaxs m)
            | DefaultDmaxs \<Rightarrow>
                (case column_max col_d rows of Inl err \<Rightarrow> Inl err | Inr m \<Rightarrow> Inr (int_dmaxs m))) of
        Inl err \<Rightarrow> Inl err
      | Inr dm \<Rightarrow>
          (case column_max col_n rows of
             Inl err \<Rightarrow> Inl err
           | Inr na \<Rightarrow>
               Inr \<lparr>cg_c_specs = rows, cg_dmaxs = dm, cg_ns = sort (map fst dm),
                    cg_ks = count_ks rows, cg_ndk2w = index_ndk2w rows, cg_nmax_avail = na\<rparr>))"

text \<open>\<open>good_part\<close>: no part is 1, no part exceeds \<open>nmax_avail\<close>, more than one part. The
  conjunction is evaluated left to right, and \<open>max\<close> raises on the empty partition.\<close>

definition good_part :: "nat \<Rightarrow> nat list \<Rightarrow> py_error + bool" where
  "good_part nmax_avail x =
     (if 1 \<in> set x then Inr False
      else case py_max x of
             Inl err \<Rightarrow> Inl err
           | Inr m \<Rightarrow> Inr (m \<le> nmax_avail \<and> length x > 1))"

fun filter_err :: "('a \<Rightarrow> py_error + bool) \<Rightarrow> 'a list \<Rightarrow> py_error + 'a list" where
  "filter_err keep [] = Inr []"
| "filter_err keep (x # xs) =
     (case keep x of
        Inl err \<Rightarrow> Inl err
      | Inr b \<Rightarrow>
          (case filter_err keep xs of
             Inl err \<Rightarrow> Inl err
           | Inr ys \<Rightarrow> Inr (if b then x # ys else ys)))"

definition n_parts_of :: "nat \<Rightarrow> nat \<Rightarrow> py_error + nat list list" where
  "n_parts_of nmax_avail n =
     (case filter_err (good_part nmax_avail) (int_partition_unordered n) of
        Inl err \<Rightarrow> Inl err
      | Inr ps \<Rightarrow> Inr (sort_key length ps))"

text \<open>The set \<open>specs\<close> for one \<open>n_part\<close>: the sorted pairings of an ordering of \<open>n_part\<close>
  with a \<open>d_part\<close> all of whose pairs \<open>(n, d)\<close> have a prime.\<close>

definition candidate_specs ::
  "(nat \<times> nat \<Rightarrow> nat option) \<Rightarrow> nat list \<Rightarrow> nat list list \<Rightarrow> (nat \<times> nat) list list" where
  "candidate_specs ks_d n_part d_parts =
     py_set (filter (\<lambda>spec. list_all (\<lambda>pair. ks_d pair \<noteq> None) spec)
               (concat (map (\<lambda>n_part_ord. map (\<lambda>d_part. sort (zip n_part_ord d_part)) d_parts)
                            (py_set (permutations n_part)))))"

text \<open>Numpy indexing of the rows of the prime table: a negative index counts from the
  end.\<close>

definition np_row :: "spec_row list \<Rightarrow> int \<Rightarrow> py_error + spec_row" where
  "np_row rows i =
     (let len = int (length rows) in
      if 0 \<le> i \<and> i < len then Inr (rows ! nat i)
      else if - len \<le> i \<and> i < 0 then Inr (rows ! nat (len + i))
      else Inl IndexError)"

text \<open>The loop over the factors of one formula: the formula so far and the running maxima
  \<open>cmax\<close>, \<open>emax\<close>, \<open>vmax\<close>.\<close>

definition factor_step ::
  "composite_generator \<Rightarrow> (nat \<times> nat) \<times> nat \<Rightarrow>
   (nat \<times> nat \<times> nat) list \<times> nat \<times> nat \<times> nat \<Rightarrow>
   py_error + (nat \<times> nat \<times> nat) list \<times> nat \<times> nat \<times> nat" where
  "factor_step G f acc =
     (case f of ((nn, dd), kk) \<Rightarrow>
      case acc of (formula, cm, em, vm) \<Rightarrow>
        (case cg_ndk2w G (nn, dd, kk) of
           None \<Rightarrow> Inl KeyError
         | Some ind \<Rightarrow>
             (case np_row (cg_c_specs G) ind of
                Inl err \<Rightarrow> Inl err
              | Inr r \<Rightarrow>
                  Inr (formula @ [(nn, dd, kk)], max cm (col_c r), max em (col_e r),
                       max vm (col_v r)))))"

record disconnected =
  disc_formulae :: "(nat \<times> nat \<times> nat) list list"
  disc_specs :: "spec_row list"

text \<open>The body of the loop over \<open>kspec\<close>; the state is \<open>kcount\<close> and the two output lists.\<close>

definition kspec_step ::
  "composite_generator \<Rightarrow> nat \<Rightarrow> nat \<Rightarrow> (nat \<times> nat) list \<Rightarrow> nat list \<Rightarrow>
   nat \<times> disconnected \<Rightarrow> py_error + nat \<times> disconnected" where
  "kspec_step G n d spec kspec st =
     (case st of (kcount, out) \<Rightarrow>
        (case for_each (factor_step G) (zip spec kspec) ([], 0, 0, 0) of
           Inl err \<Rightarrow> Inl err
         | Inr (formula, cm, em, vm) \<Rightarrow>
             Inr (kcount + 1,
                  out\<lparr>disc_formulae := disc_formulae out @ [sort formula],
                      disc_specs := disc_specs out @
                        [\<lparr>col_n = n, col_e = em, col_d = d, col_v = vm, col_k = kcount,
                          col_g = - 1, col_w = - 1, col_c = cm, col_p = length kspec\<rparr>]\<rparr>)))"

text \<open>The body of the loop over \<open>spec\<close>: \<open>kcount\<close> starts from the number of primes with
  this \<open>(n, d)\<close>, for every \<open>spec\<close> anew.\<close>

definition spec_step ::
  "composite_generator \<Rightarrow> nat \<Rightarrow> nat \<Rightarrow> (nat \<times> nat) list \<Rightarrow> disconnected \<Rightarrow>
   py_error + disconnected" where
  "spec_step G n d spec out =
     (let kcount = (case cg_ks G (n, d) of None \<Rightarrow> 0 | Some c \<Rightarrow> c) in
      case those (map (cg_ks G) spec) of
        None \<Rightarrow> Inl KeyError
      | Some counts \<Rightarrow>
          (case for_each (kspec_step G n d spec) (product_ranges counts) (kcount, out) of
             Inl err \<Rightarrow> Inl err
           | Inr (kcount', out') \<Rightarrow> Inr out'))"

definition n_part_step ::
  "composite_generator \<Rightarrow> nat \<Rightarrow> nat \<Rightarrow> nat list \<Rightarrow> disconnected \<Rightarrow> py_error + disconnected" where
  "n_part_step G n d n_part out =
     (let d_parts = filter (\<lambda>x. length x = length n_part) (int_partition_unordered d) in
      if length d_parts = 0 then Inr out
      else for_each (spec_step G n d) (candidate_specs (cg_ks G) n_part d_parts) out)"

text \<open>The body of the loop over \<open>n\<close>; \<open>int((n-1)/2)\<close> is \<open>(n - 1) div 2\<close>.\<close>

definition n_step :: "composite_generator \<Rightarrow> nat \<Rightarrow> disconnected \<Rightarrow> py_error + disconnected" where
  "n_step G n out =
     (case n_parts_of (cg_nmax_avail G) n of
        Inl err \<Rightarrow> Inl err
      | Inr n_parts \<Rightarrow>
          (case map_of (cg_dmaxs G) n of
             None \<Rightarrow> Inl KeyError
           | Some dm \<Rightarrow>
               for_each (\<lambda>d. for_each (n_part_step G n d) n_parts) [(n - 1) div 2 + 1..<dm + 1] out))"

text \<open>The final pass: \<open>mask\<close> is true at the first occurrence of a formula.\<close>

fun unique_mask :: "'a list \<Rightarrow> 'a list \<Rightarrow> bool list" where
  "unique_mask [] disc_form_set = []"
| "unique_mask (form # forms) disc_form_set =
     (if form \<in> set disc_form_set then False # unique_mask forms disc_form_set
      else True # unique_mask forms (form # disc_form_set))"

definition np_mask :: "'a list \<Rightarrow> bool list \<Rightarrow> 'a list" where
  "np_mask xs msk = map fst (filter snd (zip xs msk))"

definition generate_disconnected :: "composite_generator \<Rightarrow> py_error + disconnected" where
  "generate_disconnected G =
     (case for_each (n_step G) (cg_ns G) \<lparr>disc_formulae = [], disc_specs = []\<rparr> of
        Inl err \<Rightarrow> Inl err
      | Inr out \<Rightarrow>
          (let msk = unique_mask (disc_formulae out) [] in
           Inr \<lparr>disc_formulae = np_mask (disc_formulae out) msk,
                disc_specs = np_mask (disc_specs out) msk\<rparr>))"

text \<open>The two lists as the loops of \<open>generate_disconnected\<close> leave them, before the final
  pass.\<close>

definition collect_disconnected :: "composite_generator \<Rightarrow> py_error + disconnected" where
  "collect_disconnected G = for_each (n_step G) (cg_ns G) \<lparr>disc_formulae = [], disc_specs = []\<rparr>"

definition CompositeGenerator :: "spec_row list \<Rightarrow> comp_dmaxs \<Rightarrow> py_error + disconnected" where
  "CompositeGenerator rows arg =
     (case composite_init rows arg of
        Inl err \<Rightarrow> Inl err
      | Inr G \<Rightarrow> generate_disconnected G)"

section \<open>Generator\<close>

record generator =
  gen_c_specs :: "spec_row list"
  gen_edges :: "edge list list"
  gen_weights :: "nat list list"
  gen_disc_specs :: "spec_row list"
  gen_disc_formulae :: "(nat \<times> nat \<times> nat) list list"

definition Generator ::
  "ve \<Rightarrow> nat \<Rightarrow> nat option \<Rightarrow> nat option \<Rightarrow> nat option \<Rightarrow> nat option \<Rightarrow> comp_dmaxs \<Rightarrow>
   py_error + generator" where
  "Generator chi dmax' nmax' emax' cmax' vmax' comp_dmaxs' =
     (case PrimeGenerator chi (mk_params dmax' nmax' emax' cmax' vmax') of
        Inl err \<Rightarrow> Inl err
      | Inr st \<Rightarrow>
          (let pr = results st in
           case CompositeGenerator (c_specs pr) comp_dmaxs' of
             Inl err \<Rightarrow> Inl err
           | Inr disc \<Rightarrow>
               Inr \<lparr>gen_c_specs = c_specs pr, gen_edges = out_edges pr,
                    gen_weights = out_weights pr, gen_disc_specs = disc_specs disc,
                    gen_disc_formulae = disc_formulae disc\<rparr>))"

text \<open>The property \<open>specs\<close>: the prime rows followed by the composite rows.\<close>

definition specs :: "generator \<Rightarrow> spec_row list" where
  "specs G = (if length (gen_disc_specs G) \<noteq> 0 then gen_c_specs G @ gen_disc_specs G
              else gen_c_specs G)"

section \<open>softdrop\<close>

text \<open>
  A \<open>fastjet.PseudoJet\<close> as \<open>softdrop\<close> sees it: its transverse momentum and, when it was
  made by clustering, the two jets it was merged from (\<open>has_parents\<close>). Floats are real
  numbers here. The distance \<open>parent1.delta_R(parent2)\<close> and the float power \<open>**\<close> are
  parameters; the power is taken to return a float (Python raises on \<open>0.0\<close> to a
  negative power and returns a complex number for a negative base with a fractional
  exponent, neither of which arises for positive \<open>R\<close> and distinct parents). Dividing by
  \<open>0.0\<close> raises \<open>ZeroDivisionError\<close>.
\<close>

datatype pseudojet = Particle real | Merged real pseudojet pseudojet

fun pt :: "pseudojet \<Rightarrow> real" where
  "pt (Particle p) = p"
| "pt (Merged p parent1 parent2) = p"

fun has_parents :: "pseudojet \<Rightarrow> bool" where
  "has_parents (Particle p) = False"
| "has_parents (Merged p parent1 parent2) = True"

fun softdrop ::
  "(pseudojet \<Rightarrow> pseudojet \<Rightarrow> real) \<Rightarrow> (real \<Rightarrow> real \<Rightarrow> real) \<Rightarrow>
   pseudojet \<Rightarrow> real \<Rightarrow> real \<Rightarrow> real \<Rightarrow> py_error + pseudojet" where
  "softdrop delta_R pow (Particle p) zcut beta R = Inr (Particle p)"
| "softdrop delta_R pow (Merged p parent1 parent2) zcut beta R =
     (if pt parent1 + pt parent2 = 0 then Inl ZeroDivisionError
      else if beta \<noteq> 0 \<and> R = 0 then Inl ZeroDivisionError
      else if min (pt parent1) (pt parent2) / (pt parent1 + pt parent2)
                \<ge> (if beta = 0 then zcut else zcut * pow (delta_R parent1 parent2 / R) beta)
           then Inr (Merged p parent1 parent2)
           else if pt parent1 \<ge> pt parent2
                then softdrop delta_R pow parent1 zcut beta R
                else softdrop delta_R pow parent2 zcut beta R)"

text \<open>
  For closed examples: a variable elimination that reports complexity 2 for every graph,
  the complexity of contracting a tree from its leaves, and one that reports 2 for a tree
  and 3 for any other graph, as the triangle has. They are sample values of the parameter
  \<open>ve\<close>; what is proved of the generator holds for every \<open>ve\<close>.
\<close>

definition chi_two :: ve where
  "chi_two es n = 2"

definition chi_small :: ve where
  "chi_small es n = (if length es < n then 2 else 3)"

section \<open>Invariants of the store\<close>

text \<open>The accepted graphs of every bucket: a graph is not isomorphic to one accepted
  before it, and it is within the budgets \<open>cmax\<close> and \<open>vmax\<close>.\<close>

definition simple_ok :: "ve \<Rightarrow> params \<Rightarrow> store \<Rightarrow> bool" where
  "simple_ok chi P st =
     (\<forall>ne b. map_of st ne = Some b \<longrightarrow>
        sorted_wrt (\<lambda>g h. \<not> isomorphic h g) (simple_graphs b) \<and>
        (\<forall>g\<in>set (simple_graphs b).
           chi (get_edgelist g) (fst ne) \<le> cmax P \<and> maxdegree g \<le> vmax P))"

text \<open>The graphs of the bucket \<open>(n, e)\<close> have \<open>n\<close> vertices and \<open>e\<close> edges, the bucket
  \<open>(2, 1)\<close> holds one graph at most, and the lists stored beside the graphs are their edge
  lists, complexities and maximal degrees.\<close>

definition shape_ok :: "ve \<Rightarrow> store \<Rightarrow> bool" where
  "shape_ok chi st =
     (\<forall>ne b. map_of st ne = Some b \<longrightarrow>
        (\<forall>g\<in>set (simple_graphs b). vcount g = fst ne \<and> length (edgelist g) = snd ne) \<and>
        (ne = (2, 1) \<longrightarrow> length (simple_graphs b) \<le> 1) \<and>
        edges b = map get_edgelist (simple_graphs b) \<and>
        chis b = map (\<lambda>g. chi (get_edgelist g) (fst ne)) (simple_graphs b) \<and>
        vs b = map maxdegree (simple_graphs b))"

definition no_weights :: "store \<Rightarrow> bool" where
  "no_weights st = (\<forall>ne b. map_of st ne = Some b \<longrightarrow> weights b = [])"

text \<open>The buckets the loops over \<open>ns[1:]\<close> visit.\<close>

definition keys3 :: "params \<Rightarrow> (nat \<times> nat) list" where
  "keys3 P = concat (map (\<lambda>n. map (Pair n) (esbyn P n)) (tl (ns P)))"

text \<open>What the loops of \<open>generate_weights\<close> over the buckets with \<open>n \<ge> 3\<close> do to the store.\<close>

definition weighed :: "params \<Rightarrow> nat \<times> nat \<Rightarrow> bucket \<Rightarrow> bucket" where
  "weighed P ne b =
     b\<lparr>weights := weights b @ map (\<lambda>graph. weightings_for P graph ne) (simple_graphs b)\<rparr>"

text \<open>The rows of the prime table made so far: the \<open>w\<close> column of a row is the index of
  its weighting in the weight table, whose sum is the \<open>d\<close> column and whose length is the
  \<open>e\<close> column.\<close>

definition rows_ok :: "results_state \<Rightarrow> bool" where
  "rows_ok rs =
     (w_next rs = length (out_weights rs) \<and>
      (\<forall>r\<in>set (c_specs rs).
         0 \<le> col_w r \<and> nat (col_w r) < length (out_weights rs) \<and>
         col_d r = sum_list (out_weights rs ! nat (col_w r)) \<and>
         length (out_weights rs ! nat (col_w r)) = col_e r \<and>
         (\<forall>x\<in>set (out_weights rs ! nat (col_w r)). 1 \<le> x) \<and>
         col_p r = 1))"

text \<open>The \<open>k\<close> column of the prime rows made so far: the rows with one \<open>(n, d)\<close> are
  numbered from 0 in the order they were made, and \<open>ks\<close> counts them.\<close>

definition ks_ok :: "results_state \<Rightarrow> bool" where
  "ks_ok rs =
     (\<forall>n d. map col_k (filter (\<lambda>r. col_n r = n \<and> col_d r = d) (c_specs rs)) =
            [0..<(case ks rs (n, d) of None \<Rightarrow> 0 | Some c \<Rightarrow> c)])"

text \<open>The composite rows made so far: a formula per row, every formula sorted, and every
  row with at least four vertices, a degree of at least half the vertex count, at least two
  factors and the sentinel in the \<open>g\<close> and \<open>w\<close> columns.\<close>

definition disc_ok :: "disconnected \<Rightarrow> bool" where
  "disc_ok out =
     (length (disc_formulae out) = length (disc_specs out) \<and>
      (\<forall>f\<in>set (disc_formulae out). sorted f) \<and>
      (\<forall>r\<in>set (disc_specs out).
         4 \<le> col_n r \<and> col_n r \<le> 2 * col_d r \<and> 2 \<le> col_p r \<and>
         col_g r = - 1 \<and> col_w r = - 1))"

text \<open>The positions of a list at which its element occurs for the first time.\<close>

definition first_occurrences :: "'a list \<Rightarrow> nat list" where
  "first_occurrences xs = filter (\<lambda>i. xs ! i \<notin> set (take i xs)) [0..<length xs]"

section \<open>Closed examples\<close>

text \<open>The stores of the generator for \<open>dmax = 2\<close> and for \<open>dmax = 3\<close> with the other budgets
  at their defaults, and the prime table for \<open>dmax = 2\<close>: the single edge, the path on three
  vertices, the triangle, and the star and the path on four vertices.\<close>

definition example_store2 :: store where
  "example_store2 =
     [((2, 1), \<lparr>simple_graphs = [\<lparr>vcount = 2, edgelist = [(0, 1)]\<rparr>], edges = [[(0, 1)]],
                chis = [2], vs = [1], weights = [[[1], [2]]]\<rparr>),
      ((3, 2), \<lparr>simple_graphs = [\<lparr>vcount = 3, edgelist = [(0, 1), (0, 2)]\<rparr>],
                edges = [[(0, 1), (0, 2)]], chis = [2], vs = [2], weights = [[[1, 1]]]\<rparr>)]"

definition example_store3 :: store where
  "example_store3 =
     [((2, 1), \<lparr>simple_graphs = [\<lparr>vcount = 2, edgelist = [(0, 1)]\<rparr>], edges = [[(0, 1)]],
                chis = [2], vs = [1], weights = [[[1], [2], [3]]]\<rparr>),
      ((3, 2), \<lparr>simple_graphs = [\<lparr>vcount = 3, edgelist = [(0, 1), (0, 2)]\<rparr>],
                edges = [[(0, 1), (0, 2)]], chis = [2], vs = [2],
                weights = [[[1, 1], [1, 2]]]\<rparr>),
      ((3, 3), \<lparr>simple_graphs = [\<lparr>vcount = 3, edgelist = [(0, 1), (0, 2), (1, 2)]\<rparr>],
                edges = [[(0, 1), (0, 2), (1, 2)]], chis = [2], vs = [2],
                weights = [[[1, 1, 1]]]\<rparr>),
      ((4, 3), \<lparr>simple_graphs = [\<lparr>vcount = 4, edgelist = [(0, 1), (0, 2), (0, 3)]\<rparr>,
                                 \<lparr>vcount = 4, edgelist = [(0, 1), (0, 2), (1, 3)]\<rparr>],
                edges = [[(0, 1), (0, 2), (0, 3)], [(0, 1), (0, 2), (1, 3)]],
                chis = [2, 2], vs = [3, 2],
                weights = [[[1, 1, 1]], [[1, 1, 1]]]\<rparr>)]"

definition example_rows2 :: "nat \<Rightarrow> nat \<Rightarrow> spec_row list" where
  "example_rows2 c_edge c_path =
     [\<lparr>col_n = 2, col_e = 1, col_d = 1, col_v = 1, col_k = 0, col_g = 0, col_w = 0,
       col_c = c_edge, col_p = 1\<rparr>,
      \<lparr>col_n = 2, col_e = 1, col_d = 2, col_v = 1, col_k = 0, col_g = 0, col_w = 1,
       col_c = c_edge, col_p = 1\<rparr>,
      \<lparr>col_n = 3, col_e = 2, col_d = 2, col_v = 2, col_k = 0, col_g = 1, col_w = 2,
       col_c = c_path, col_p = 1\<rparr>]"

text \<open>The composite table for \<open>dmax = 2\<close>: two disjoint single edges.\<close>

definition example_disc2 :: "nat \<Rightarrow> disconnected" where
  "example_disc2 c_edge =
     \<lparr>disc_formulae = [[(2, 1, 0), (2, 1, 0)]],
      disc_specs = [\<lparr>col_n = 4, col_e = 1, col_d = 2, col_v = 1, col_k = 0, col_g = - 1,
                     col_w = - 1, col_c = c_edge, col_p = 2\<rparr>]\<rparr>"

text \<open>The result of the generator for \<open>dmax = 4\<close>, \<open>nmax = 2\<close>: the single edge with the
  weightings 1 to 4, and the composites of two, three and four single edges.\<close>

definition example_generator4 :: "nat \<Rightarrow> generator" where
  "example_generator4 c_edge =
     \<lparr>gen_c_specs =
        map (\<lambda>d. \<lparr>col_n = 2, col_e = 1, col_d = d, col_v = 1, col_k = 0, col_g = 0,
                   col_w = int d - 1, col_c = c_edge, col_p = 1\<rparr>) [1, 2, 3, 4],
      gen_edges = [[(0, 1)]],
      gen_weights = [[1], [2], [3], [4]],
      gen_disc_specs =
        map (\<lambda>(n, d, p). \<lparr>col_n = n, col_e = 1, col_d = d, col_v = 1, col_k = 0, col_g = - 1,
                           col_w = - 1, col_c = c_edge, col_p = p\<rparr>)
            [(4, 2, 2), (4, 3, 2), (4, 4, 2), (4, 4, 2), (6, 3, 3), (6, 4, 3), (8, 4, 4)],
      gen_disc_formulae =
        [[(2, 1, 0), (2, 1, 0)], [(2, 1, 0), (2, 2, 0)], [(2, 1, 0), (2, 3, 0)],
         [(2, 2, 0), (2, 2, 0)], [(2, 1, 0), (2, 1, 0), (2, 1, 0)],
         [(2, 1, 0), (2, 1, 0), (2, 2, 0)], [(2, 1, 0), (2, 1, 0), (2, 1, 0), (2, 1, 0)]]\<rparr>"

text \<open>The generator for \<open>dmax = 3\<close>, \<open>nmax = 3\<close> and \<open>comp_dmaxs = {6: 6}\<close>, with
  \<open>chi_small\<close>: the prime table (the single edge, the path and the triangle), the composite
  rows for \<open>n = 6\<close> as the loops build them, and the composite table after the final pass.
  The pair \<open>(3, 3)\<close> has two primes, so the formula of one of each is built twice, at the
  positions 8 and 9.\<close>

definition example_rows33 :: "spec_row list" where
  "example_rows33 =
     [\<lparr>col_n = 2, col_e = 1, col_d = 1, col_v = 1, col_k = 0, col_g = 0, col_w = 0,
       col_c = 2, col_p = 1\<rparr>,
      \<lparr>col_n = 2, col_e = 1, col_d = 2, col_v = 1, col_k = 0, col_g = 0, col_w = 1,
       col_c = 2, col_p = 1\<rparr>,
      \<lparr>col_n = 2, col_e = 1, col_d = 3, col_v = 1, col_k = 0, col_g = 0, col_w = 2,
       col_c = 2, col_p = 1\<rparr>,
      \<lparr>col_n = 3, col_e = 2, col_d = 2, col_v = 2, col_k = 0, col_g = 1, col_w = 3,
       col_c = 2, col_p = 1\<rparr>,
      \<lparr>col_n = 3, col_e = 2, col_d = 3, col_v = 2, col_k = 0, col_g = 1, col_w = 4,
       col_c = 2, col_p = 1\<rparr>,
      \<lparr>col_n = 3, col_e = 3, col_d = 3, col_v = 2, col_k = 1, col_g = 2, col_w = 5,
       col_c = 3, col_p = 1\<rparr>]"

definition example_raw33 :: disconnected where
  "example_raw33 =
     \<lparr>disc_formulae =
        [[(2, 1, 0), (2, 1, 0), (2, 1, 0)], [(3, 2, 0), (3, 2, 0)],
         [(2, 1, 0), (2, 1, 0), (2, 2, 0)], [(3, 2, 0), (3, 3, 0)], [(3, 2, 0), (3, 3, 1)],
         [(2, 1, 0), (2, 1, 0), (2, 3, 0)], [(2, 1, 0), (2, 2, 0), (2, 2, 0)],
         [(3, 3, 0), (3, 3, 0)], [(3, 3, 0), (3, 3, 1)], [(3, 3, 0), (3, 3, 1)],
         [(3, 3, 1), (3, 3, 1)], [(2, 1, 0), (2, 2, 0), (2, 3, 0)],
         [(2, 2, 0), (2, 2, 0), (2, 2, 0)]],
      disc_specs =
        map (\<lambda>(d, e, v, k, c, p). \<lparr>col_n = 6, col_e = e, col_d = d, col_v = v, col_k = k,
                                    col_g = - 1, col_w = - 1, col_c = c, col_p = p\<rparr>)
            [(3, 1, 1, 0, 2, 3), (4, 2, 2, 0, 2, 2), (4, 1, 1, 0, 2, 3), (5, 2, 2, 0, 2, 2),
             (5, 3, 2, 1, 3, 2), (5, 1, 1, 0, 2, 3), (5, 1, 1, 0, 2, 3), (6, 2, 2, 0, 2, 2),
             (6, 3, 2, 1, 3, 2), (6, 3, 2, 2, 3, 2), (6, 3, 2, 3, 3, 2), (6, 1, 1, 0, 2, 3),
             (6, 1, 1, 0, 2, 3)]\<rparr>"

definition example_disc33 :: disconnected where
  "example_disc33 =
     \<lparr>disc_formulae =
        [[(2, 1, 0), (2, 1, 0), (2, 1, 0)], [(3, 2, 0), (3, 2, 0)],
         [(2, 1, 0), (2, 1, 0), (2, 2, 0)], [(3, 2, 0), (3, 3, 0)], [(3, 2, 0), (3, 3, 1)],
         [(2, 1, 0), (2, 1, 0), (2, 3, 0)], [(2, 1, 0), (2, 2, 0), (2, 2, 0)],
         [(3, 3, 0), (3, 3, 0)], [(3, 3, 0), (3, 3, 1)],
         [(3, 3, 1), (3, 3, 1)], [(2, 1, 0), (2, 2, 0), (2, 3, 0)],
         [(2, 2, 0), (2, 2, 0), (2, 2, 0)]],
      disc_specs =
        map (\<lambda>(d, e, v, k, c, p). \<lparr>col_n = 6, col_e = e, col_d = d, col_v = v, col_k = k,
                                    col_g = - 1, col_w = - 1, col_c = c, col_p = p\<rparr>)
            [(3, 1, 1, 0, 2, 3), (4, 2, 2, 0, 2, 2), (4, 1, 1, 0, 2, 3), (5, 2, 2, 0, 2, 2),
             (5, 3, 2, 1, 3, 2), (5, 1, 1, 0, 2, 3), (5, 1, 1, 0, 2, 3), (6, 2, 2, 0, 2, 2),
             (6, 3, 2, 1, 3, 2), (6, 3, 2, 3, 3, 2), (6, 1, 1, 0, 2, 3),
             (6, 1, 1, 0, 2, 3)]\<rparr>"

section \<open>Permutations and the symmetry of isomorphism\<close>

lemma mset_remove_nth:
  "i < length xs \<Longrightarrow> add_mset (xs ! i) (mset (take i xs @ drop (Suc i) xs)) = mset xs"
proof -
  assume "i < length xs"
  then have "xs = take i xs @ xs ! i # drop (Suc i) xs"
    by (rule id_take_nth_drop)
  then have "mset xs = mset (take i xs @ xs ! i # drop (Suc i) xs)"
    by simp
  then show ?thesis by simp
qed

lemma set_permutations: "set (permutations xs) = {ys. mset ys = mset xs}"
proof (induction xs rule: permutations.induct)
  case 1
  show ?case by simp
next
  case (2 x xs)
  define l where "l = x # xs"
  have IH: "set (permutations (take i l @ drop (Suc i) l)) = {ys. mset ys = mset (take i l @ drop (Suc i) l)}"
    if "i < length l" for i
    unfolding l_def by (rule 2) (use that in \<open>auto simp: l_def\<close>)
  have unfold: "permutations l =
      concat (map (\<lambda>i. map ((#) (l ! i)) (permutations (take i l @ drop (Suc i) l))) [0..<length l])"
    unfolding l_def by (simp only: permutations.simps length_Cons)
  have mem: "ys \<in> set (permutations l) \<longleftrightarrow>
      (\<exists>i<length l. \<exists>zs\<in>set (permutations (take i l @ drop (Suc i) l)). ys = l ! i # zs)" for ys
    unfolding unfold by auto
  have "set (permutations l) = {ys. mset ys = mset l}"
  proof (rule set_eqI, rule iffI)
    fix ys assume "ys \<in> set (permutations l)"
    then obtain i zs where i: "i < length l" and ys: "ys = l ! i # zs"
      and zs: "zs \<in> set (permutations (take i l @ drop (Suc i) l))"
      unfolding mem by blast
    from zs IH[OF i] have "mset zs = mset (take i l @ drop (Suc i) l)" by simp
    with mset_remove_nth[OF i] ys have "mset ys = mset l" by simp
    then show "ys \<in> {ys. mset ys = mset l}" by simp
  next
    fix ys assume "ys \<in> {ys. mset ys = mset l}"
    then have m: "mset ys = mset l" by simp
    have "l \<noteq> []" by (simp add: l_def)
    with m have "ys \<noteq> []" by auto
    then obtain y zs where ys: "ys = y # zs" by (cases ys) auto
    with m have "y \<in> set l" by (metis list.set_intros(1) mset_eq_setD)
    then obtain i where i: "i < length l" and y: "l ! i = y"
      by (auto simp: in_set_conv_nth)
    have "add_mset y (mset zs) = add_mset y (mset (take i l @ drop (Suc i) l))"
      using m ys mset_remove_nth[OF i] y by simp
    then have "mset zs = mset (take i l @ drop (Suc i) l)" by simp
    with IH[OF i] have "zs \<in> set (permutations (take i l @ drop (Suc i) l))" by simp
    with i y ys show "ys \<in> set (permutations l)"
      unfolding mem by blast
  qed
  then show ?case by (simp only: l_def)
qed

lemma relabel_inverse:
  assumes "p \<in> set (permutations [0..<n])"
  shows "\<exists>q \<in> set (permutations [0..<n]). \<forall>a. relabel q (relabel p a) = a"
proof -
  from assms have m: "mset p = mset [0..<n]" by (simp add: set_permutations)
  then have len: "length p = n" by (metis length_upt mset_eq_length minus_nat.diff_0)
  from m have dist: "distinct p" by (metis distinct_upt mset_eq_imp_distinct_iff)
  from m have setp: "set p = {..<n}" by (metis mset_eq_setD set_upt atLeast_upt lessThan_atLeast0)
  have bij: "bij_betw ((!) p) {..<n} {..<n}"
    by (rule bij_betw_nth[OF dist]) (simp_all add: len setp)
  define g where "g = inv_into {..<n} ((!) p)"
  define q where "q = map g [0..<n]"
  have bij_g: "bij_betw g {..<n} {..<n}"
    unfolding g_def using bij by (rule bij_betw_inv_into)
  have "mset q = image_mset g (mset_set {0..<n})"
    by (simp add: q_def mset_upt)
  also have "\<dots> = mset_set (g ` {0..<n})"
    using bij_g by (intro image_mset_mset_set) (auto simp: bij_betw_def lessThan_atLeast0)
  also have "g ` {0..<n} = {0..<n}"
    using bij_g by (auto simp: bij_betw_def lessThan_atLeast0)
  finally have "mset q = mset [0..<n]" by (simp add: mset_upt)
  then have q: "q \<in> set (permutations [0..<n])" by (simp add: set_permutations)
  have "relabel q (relabel p a) = a" for a
  proof (cases "a < n")
    case True
    then have pa: "p ! a < n" using setp len by (metis lessThan_iff nth_mem)
    have "g (p ! a) = a"
      unfolding g_def using bij True by (intro inv_into_f_f) (auto simp: bij_betw_def)
    with True pa show ?thesis by (simp add: relabel_def len q_def)
  next
    case False
    then show ?thesis by (simp add: relabel_def len q_def)
  qed
  with q show ?thesis by blast
qed

lemma norm_edge_swap: "norm_edge (b, a) = norm_edge (a, b)"
  by (auto simp: norm_edge_def min_def max_def)

lemma relabel_edge_norm: "relabel_edge q (norm_edge e) = relabel_edge q e"
  by (cases e) (auto simp: relabel_edge_def norm_edge_def min_def max_def)

lemma colored_iso_sym:
  assumes "colored_iso n E1 E2"
  shows "colored_iso n E2 E1"
proof -
  from assms obtain p where p: "p \<in> set (permutations [0..<n])"
    and H: "mset (map (\<lambda>(e, c). (relabel_edge p e, c)) E1) = mset (map (\<lambda>(e, c). (norm_edge e, c)) E2)"
    by (auto simp: colored_iso_def)
  from relabel_inverse[OF p] obtain q where q: "q \<in> set (permutations [0..<n])"
    and qinv: "\<forall>a. relabel q (relabel p a) = a" by blast
  have undo: "relabel_edge q (relabel_edge p e) = norm_edge e" for e
  proof -
    have "relabel_edge p e = norm_edge (relabel p (fst e), relabel p (snd e))"
      by (simp add: relabel_edge_def)
    then have "relabel_edge q (relabel_edge p e) = relabel_edge q (relabel p (fst e), relabel p (snd e))"
      by (simp only: relabel_edge_norm)
    also have "\<dots> = norm_edge e"
      by (simp add: relabel_edge_def qinv)
    finally show ?thesis .
  qed
  have "image_mset (\<lambda>(e, c). (relabel_edge q e, c)) (mset (map (\<lambda>(e, c). (relabel_edge p e, c)) E1))
      = image_mset (\<lambda>(e, c). (relabel_edge q e, c)) (mset (map (\<lambda>(e, c). (norm_edge e, c)) E2))"
    using H by simp
  then have "mset (map (\<lambda>(e, c). (norm_edge e, c)) E1) = mset (map (\<lambda>(e, c). (relabel_edge q e, c)) E2)"
    by (simp add: image_mset.compositionality comp_def case_prod_unfold undo relabel_edge_norm)
  with q show ?thesis by (auto simp: colored_iso_def)
qed

lemma isomorphic_sym: "isomorphic g h \<Longrightarrow> isomorphic h g"
  by (auto simp: isomorphic_def dest: colored_iso_sym)

lemma isomorphic_vf2_sym: "isomorphic_vf2 g c1 c2 \<Longrightarrow> isomorphic_vf2 g c2 c1"
  by (auto simp: isomorphic_vf2_def dest: colored_iso_sym)

lemma isomorphic_vf2_colors:
  assumes "isomorphic_vf2 g c1 c2" "length c1 = length (edgelist g)" "length c2 = length (edgelist g)"
  shows "mset c1 = mset c2"
proof -
  from assms(1) obtain p where
    H: "mset (map (\<lambda>(e, c). (relabel_edge p e, c)) (zip (edgelist g) c1))
      = mset (map (\<lambda>(e, c). (norm_edge e, c)) (zip (edgelist g) c2))"
    by (auto simp: isomorphic_vf2_def colored_iso_def)
  then have "image_mset snd (mset (map (\<lambda>(e, c). (relabel_edge p e, c)) (zip (edgelist g) c1)))
      = image_mset snd (mset (map (\<lambda>(e, c). (norm_edge e, c)) (zip (edgelist g) c2)))"
    by simp
  then have "mset (map snd (zip (edgelist g) c1)) = mset (map snd (zip (edgelist g) c2))"
    by (simp add: image_mset.compositionality comp_def case_prod_unfold)
  with assms(2,3) show ?thesis by (simp flip: mset_map)
qed

section \<open>Loops and the store\<close>

lemma for_each_invariant:
  assumes "for_each body xs s = Inr s'" and "I s"
    and "\<And>x t t'. x \<in> set xs \<Longrightarrow> I t \<Longrightarrow> body x t = Inr t' \<Longrightarrow> I t'"
  shows "I s'"
  using assms
proof (induction xs arbitrary: s)
  case Nil
  then show ?case by simp
next
  case (Cons x xs)
  from Cons.prems(1) obtain t where t: "body x s = Inr t" and rest: "for_each body xs t = Inr s'"
    by (auto split: sum.splits)
  have "I t" using Cons.prems(2,3) t by auto
  then show ?case using Cons.IH[OF rest] Cons.prems(3) by auto
qed

lemma map_of_put:
  "map_of (put ne b st) k =
     (if k = ne then (case map_of st k of None \<Rightarrow> None | Some old \<Rightarrow> Some b) else map_of st k)"
  by (induction st) (auto simp: put_def)

lemma map_fst_put: "map fst (put ne b st) = map fst st"
  by (induction st) (auto simp: put_def)

lemma tl_ns: "n \<in> set (tl (ns P)) \<Longrightarrow> 3 \<le> n \<and> n \<le> nmax P"
proof -
  assume "n \<in> set (tl (ns P))"
  then have "n \<in> set [Suc 2..<nmax P + 1]"
    by (simp only: ns_def tl_upt)
  then show ?thesis by auto
qed

lemma esbyn_lower: "e \<in> set (esbyn P n) \<Longrightarrow> n - 1 \<le> e \<and> e \<le> emax P"
  by (auto simp: esbyn_def emaxs_def)

lemma add_if_new_cases:
  assumes "add_if_new chi P g ne st = Inr st'"
  obtains "st' = st"
  | b where "map_of st ne = Some b"
      "\<not> list_ex (\<lambda>graph. isomorphic g graph) (simple_graphs b)"
      "chi (get_edgelist g) (fst ne) \<le> cmax P" "maxdegree g \<le> vmax P"
      "st' = put ne (b\<lparr>simple_graphs := simple_graphs b @ [g],
                       edges := edges b @ [get_edgelist g],
                       chis := chis b @ [chi (get_edgelist g) (fst ne)],
                       vs := vs b @ [maxdegree g]\<rparr>) st"
  using assms
  by (auto simp: add_if_new_def Let_def split: option.splits if_splits)

text \<open>An invariant of \<open>grow_bucket\<close> is one that every call of \<open>add_if_new\<close> in its two
  loops keeps, where the seed of the call is a graph of the bucket it is read from.\<close>

lemma grow_bucket_invariant:
  assumes run: "grow_bucket chi P n e st = Inr st'" and start: "I st"
    and attach: "\<And>b0 seed v t t'. I b0 \<Longrightarrow> (\<exists>b. map_of b0 (n - 1, e - 1) = Some b \<and> seed \<in> set (simple_graphs b))
        \<Longrightarrow> I t \<Longrightarrow> add_if_new chi P (attach_vertex n seed v) (n, e) t = Inr t' \<Longrightarrow> I t'"
    and extend: "\<And>b0 seed new_edge t t'. I b0 \<Longrightarrow> (\<exists>b. map_of b0 (n, e - 1) = Some b \<and> seed \<in> set (simple_graphs b))
        \<Longrightarrow> I t \<Longrightarrow> add_if_new chi P (add_edges [new_edge] seed) (n, e) t = Inr t' \<Longrightarrow> I t'"
  shows "I st'"
proof -
  from run obtain st1 where
    first: "(if e - 1 \<in> set (esbyn P (n - 1)) then
              (case map_of st (n - 1, e - 1) of
                 None \<Rightarrow> Inl KeyError
               | Some b \<Rightarrow>
                   for_each (\<lambda>seed_graph.
                       for_each (\<lambda>v. add_if_new chi P (attach_vertex n seed_graph v) (n, e))
                                [0..<n - 1])
                     (simple_graphs b) st)
            else Inr st) = Inr st1"
    and second: "(if e - 1 \<in> set (esbyn P n) then
            (case map_of st1 (n, e - 1) of
               None \<Rightarrow> Inl KeyError
             | Some b \<Rightarrow>
                 for_each (\<lambda>(seed_graph, seed_edges).
                     for_each (\<lambda>new_edge. add_if_new chi P (add_edges [new_edge] seed_graph) (n, e))
                              (edge_filter n seed_edges))
                   (zip (simple_graphs b) (edges b)) st1)
          else Inr st1) = Inr st'"
    unfolding grow_bucket_def by (auto split: sum.splits)
  have ok1: "I st1"
  proof (cases "e - 1 \<in> set (esbyn P (n - 1))")
    case True
    with first obtain b where b: "map_of st (n - 1, e - 1) = Some b"
      by (cases "map_of st (n - 1, e - 1)") auto
    with first True have
      "for_each (\<lambda>seed_graph.
           for_each (\<lambda>v. add_if_new chi P (attach_vertex n seed_graph v) (n, e)) [0..<n - 1])
         (simple_graphs b) st = Inr st1"
      by simp
    then show ?thesis using start
    proof (rule for_each_invariant)
      fix seed t t'
      assume seed: "seed \<in> set (simple_graphs b)" and t: "I t"
        and "for_each (\<lambda>v. add_if_new chi P (attach_vertex n seed v) (n, e)) [0..<n - 1] t = Inr t'"
      from this(3) t show "I t'"
      proof (rule for_each_invariant)
        fix v u u'
        assume "I u" "add_if_new chi P (attach_vertex n seed v) (n, e) u = Inr u'"
        with attach[OF start _ this] b seed show "I u'" by blast
      qed
    qed
  next
    case False
    with first start show ?thesis by simp
  qed
  show ?thesis
  proof (cases "e - 1 \<in> set (esbyn P n)")
    case True
    with second obtain b where b: "map_of st1 (n, e - 1) = Some b"
      by (cases "map_of st1 (n, e - 1)") auto
    with second True have
      "for_each (\<lambda>(seed_graph, seed_edges).
           for_each (\<lambda>new_edge. add_if_new chi P (add_edges [new_edge] seed_graph) (n, e))
                    (edge_filter n seed_edges))
         (zip (simple_graphs b) (edges b)) st1 = Inr st'"
      by simp
    then show ?thesis using ok1
    proof (rule for_each_invariant)
      fix z t t'
      assume z: "z \<in> set (zip (simple_graphs b) (edges b))" and t: "I t"
        and run: "(case z of (seed_graph, seed_edges) \<Rightarrow>
           for_each (\<lambda>new_edge. add_if_new chi P (add_edges [new_edge] seed_graph) (n, e))
                    (edge_filter n seed_edges)) t = Inr t'"
      obtain seed seed_edges where zz: "z = (seed, seed_edges)" by (cases z)
      with z have seed: "seed \<in> set (simple_graphs b)" by (auto dest: set_zip_leftD)
      from run zz have
        "for_each (\<lambda>new_edge. add_if_new chi P (add_edges [new_edge] seed) (n, e))
                  (edge_filter n seed_edges) t = Inr t'"
        by simp
      then show "I t'" using t
      proof (rule for_each_invariant)
        fix new_edge u u'
        assume "I u" "add_if_new chi P (add_edges [new_edge] seed) (n, e) u = Inr u'"
        with extend[OF ok1 _ this] b seed show "I u'" by blast
      qed
    qed
  next
    case False
    with second ok1 show ?thesis by simp
  qed
qed

lemma generate_simple_invariant:
  assumes run: "generate_simple chi P st = Inr st'"
    and first: "\<And>t'. add_if_new chi P Full2 (2, 1) st = Inr t' \<Longrightarrow> I t'"
    and grow: "\<And>n e t t'. 3 \<le> n \<Longrightarrow> e \<in> set (esbyn P n) \<Longrightarrow> I t
        \<Longrightarrow> grow_bucket chi P n e t = Inr t' \<Longrightarrow> I t'"
  shows "I st'"
proof -
  from run obtain st1 where a: "add_if_new chi P Full2 (2, 1) st = Inr st1"
    and l: "for_each (\<lambda>n. for_each (\<lambda>e. grow_bucket chi P n e) (esbyn P n)) (tl (ns P)) st1 = Inr st'"
    unfolding generate_simple_def by (auto split: sum.splits)
  have "I st1" using first[OF a] .
  with l show ?thesis
  proof (rule for_each_invariant)
    fix n t t'
    assume n: "n \<in> set (tl (ns P))" and "I t"
      and "for_each (\<lambda>e. grow_bucket chi P n e) (esbyn P n) t = Inr t'"
    from this(3,2) show "I t'"
    proof (rule for_each_invariant)
      fix e u u'
      assume "e \<in> set (esbyn P n)" "I u" "grow_bucket chi P n e u = Inr u'"
      with grow[of n e u u'] tl_ns[OF n] show "I u'" by simp
    qed
  qed
qed

section \<open>The accepted simple graphs\<close>

lemma add_if_new_simple_ok:
  assumes "add_if_new chi P g ne st = Inr st'" and "simple_ok chi P st"
  shows "simple_ok chi P st'"
  using assms(1)
proof (cases rule: add_if_new_cases)
  case 1
  with assms(2) show ?thesis by simp
next
  case (2 b)
  show ?thesis
    unfolding simple_ok_def
  proof (intro allI impI)
    fix k b' assume look: "map_of st' k = Some b'"
    show "sorted_wrt (\<lambda>g h. \<not> isomorphic h g) (simple_graphs b') \<and>
      (\<forall>g\<in>set (simple_graphs b'). chi (get_edgelist g) (fst k) \<le> cmax P \<and> maxdegree g \<le> vmax P)"
    proof (cases "k = ne")
      case True
      with look 2 have b': "simple_graphs b' = simple_graphs b @ [g]"
        by (auto simp: map_of_put)
      from assms(2)[unfolded simple_ok_def, rule_format, OF 2(1)]
      have old: "sorted_wrt (\<lambda>g h. \<not> isomorphic h g) (simple_graphs b)"
        "\<forall>g\<in>set (simple_graphs b). chi (get_edgelist g) (fst ne) \<le> cmax P \<and> maxdegree g \<le> vmax P"
        by simp_all
      from 2(2) have "\<forall>h\<in>set (simple_graphs b). \<not> isomorphic g h"
        by (simp add: list_ex_iff)
      with old 2(3,4) True show ?thesis
        by (auto simp: b' sorted_wrt_append)
    next
      case False
      with look 2 have "map_of st k = Some b'" by (simp add: map_of_put)
      from assms(2)[unfolded simple_ok_def, rule_format, OF this] show ?thesis .
    qed
  qed
qed

lemma init_store_lookup: "map_of (init_store P) ne = Some b \<Longrightarrow> b = empty_bucket"
  by (auto simp: init_store_def dest!: map_of_SomeD)

lemma init_store_simple_ok: "simple_ok chi P (init_store P)"
  by (auto simp: simple_ok_def empty_bucket_def dest!: init_store_lookup)

lemma generate_simple_ok:
  assumes "generate_simple chi P st = Inr st'" and "simple_ok chi P st"
  shows "simple_ok chi P st'"
  using assms(1)
proof (rule generate_simple_invariant)
  fix n e t t'
  assume "simple_ok chi P t" "grow_bucket chi P n e t = Inr t'"
  from this(2,1) show "simple_ok chi P t'"
    by (rule grow_bucket_invariant) (auto intro: add_if_new_simple_ok)
qed (use assms(2) in \<open>auto intro: add_if_new_simple_ok\<close>)

lemma add_if_new_shape:
  assumes run: "add_if_new chi P g ne st = Inr st'" and ok: "shape_ok chi st \<and> no_weights st"
    and g: "vcount g = fst ne" "length (edgelist g) = snd ne"
    and first: "ne = (2, 1) \<Longrightarrow> \<forall>b. map_of st ne = Some b \<longrightarrow> simple_graphs b = []"
  shows "shape_ok chi st' \<and> no_weights st'"
  using run
proof (cases rule: add_if_new_cases)
  case 1
  with ok show ?thesis by simp
next
  case (2 b)
  from ok 2(1) have old:
    "\<forall>g\<in>set (simple_graphs b). vcount g = fst ne \<and> length (edgelist g) = snd ne"
    "edges b = map get_edgelist (simple_graphs b)"
    "chis b = map (\<lambda>g. chi (get_edgelist g) (fst ne)) (simple_graphs b)"
    "vs b = map maxdegree (simple_graphs b)"
    "weights b = []"
    unfolding shape_ok_def no_weights_def by blast+
  have "shape_ok chi st'"
    unfolding shape_ok_def
  proof (intro allI impI)
    fix k b' assume look: "map_of st' k = Some b'"
    show "(\<forall>g\<in>set (simple_graphs b'). vcount g = fst k \<and> length (edgelist g) = snd k) \<and>
        (k = (2, 1) \<longrightarrow> length (simple_graphs b') \<le> 1) \<and>
        edges b' = map get_edgelist (simple_graphs b') \<and>
        chis b' = map (\<lambda>g. chi (get_edgelist g) (fst k)) (simple_graphs b') \<and>
        vs b' = map maxdegree (simple_graphs b')"
    proof (cases "k = ne")
      case True
      with look 2 have b': "b' = b\<lparr>simple_graphs := simple_graphs b @ [g],
                       edges := edges b @ [get_edgelist g],
                       chis := chis b @ [chi (get_edgelist g) (fst ne)],
                       vs := vs b @ [maxdegree g]\<rparr>"
        by (auto simp: map_of_put)
      from first 2(1) have "ne = (2, 1) \<Longrightarrow> simple_graphs b = []" by simp
      with old g True show ?thesis by (auto simp: b')
    next
      case False
      with look 2 have "map_of st k = Some b'" by (simp add: map_of_put)
      with ok show ?thesis unfolding shape_ok_def by blast
    qed
  qed
  moreover have "no_weights st'"
    unfolding no_weights_def
  proof (intro allI impI)
    fix k b' assume look: "map_of st' k = Some b'"
    show "weights b' = []"
    proof (cases "k = ne")
      case True
      with look 2 old(5) show ?thesis by (auto simp: map_of_put)
    next
      case False
      with look 2 have "map_of st k = Some b'" by (simp add: map_of_put)
      with ok show ?thesis unfolding no_weights_def by blast
    qed
  qed
  ultimately show ?thesis ..
qed

lemma init_store_shape: "shape_ok chi (init_store P) \<and> no_weights (init_store P)"
  by (auto simp: shape_ok_def no_weights_def empty_bucket_def dest!: init_store_lookup)

lemma generate_simple_shape:
  assumes "generate_simple chi P (init_store P) = Inr st'"
  shows "shape_ok chi st' \<and> no_weights st'"
  using assms
proof (rule generate_simple_invariant)
  fix t' assume "add_if_new chi P Full2 (2, 1) (init_store P) = Inr t'"
  then show "shape_ok chi t' \<and> no_weights t'"
    using init_store_shape
    by (rule add_if_new_shape) (auto simp: Full2_def empty_bucket_def dest!: init_store_lookup)
next
  fix n e t t'
  assume n: "3 \<le> n" and e: "e \<in> set (esbyn P n)" and t: "shape_ok chi t \<and> no_weights t"
    and run: "grow_bucket chi P n e t = Inr t'"
  from esbyn_lower[OF e] n have e2: "2 \<le> e" by linarith
  from run t show "shape_ok chi t' \<and> no_weights t'"
  proof (rule grow_bucket_invariant)
    fix b0 seed v u u'
    assume b0: "shape_ok chi b0 \<and> no_weights b0"
      and seed: "\<exists>b. map_of b0 (n - 1, e - 1) = Some b \<and> seed \<in> set (simple_graphs b)"
      and u: "shape_ok chi u \<and> no_weights u"
      and add: "add_if_new chi P (attach_vertex n seed v) (n, e) u = Inr u'"
    from b0 seed have "vcount seed = n - 1 \<and> length (edgelist seed) = e - 1"
      unfolding shape_ok_def by fastforce
    with n e2 have "vcount (attach_vertex n seed v) = fst (n, e)"
      "length (edgelist (attach_vertex n seed v)) = snd (n, e)"
      by (simp_all add: attach_vertex_def add_edges_def add_vertices_def)
    with add u show "shape_ok chi u' \<and> no_weights u'"
      by (rule add_if_new_shape) (use n in simp)
  next
    fix b0 seed new_edge u u'
    assume b0: "shape_ok chi b0 \<and> no_weights b0"
      and seed: "\<exists>b. map_of b0 (n, e - 1) = Some b \<and> seed \<in> set (simple_graphs b)"
      and u: "shape_ok chi u \<and> no_weights u"
      and add: "add_if_new chi P (add_edges [new_edge] seed) (n, e) u = Inr u'"
    from b0 seed have "vcount seed = n \<and> length (edgelist seed) = e - 1"
      unfolding shape_ok_def by fastforce
    with n e2 have "vcount (add_edges [new_edge] seed) = fst (n, e)"
      "length (edgelist (add_edges [new_edge] seed)) = snd (n, e)"
      by (simp_all add: add_edges_def)
    with add u show "shape_ok chi u' \<and> no_weights u'"
      by (rule add_if_new_shape) (use n in simp)
  qed
qed

section \<open>The weighting search over the store\<close>

lemma for_each_append:
  "for_each body (xs @ ys) s =
     (case for_each body xs s of Inl err \<Rightarrow> Inl err | Inr t \<Rightarrow> for_each body ys t)"
  by (induction xs arbitrary: s) (auto split: sum.splits)

lemma for_each_nested:
  "for_each (\<lambda>x. for_each (body x) (inner x)) xs s =
   for_each (\<lambda>(x, y). body x y) (concat (map (\<lambda>x. map (Pair x) (inner x)) xs)) s"
proof (induction xs arbitrary: s)
  case Nil
  show ?case by simp
next
  case (Cons x xs)
  have one: "for_each (\<lambda>(x, y). body x y) (map (Pair x) ys) t = for_each (body x) ys t" for ys t
    by (induction ys arbitrary: t) (auto split: sum.splits)
  show ?case
    by (simp add: for_each_append one Cons.IH split: sum.splits)
qed

lemma distinct_pairs:
  assumes "distinct xs" and "\<And>x. distinct (inner x)"
  shows "distinct (concat (map (\<lambda>x. map (Pair x) (inner x)) xs))"
  using assms(1)
proof (induction xs)
  case Nil
  show ?case by simp
next
  case (Cons x xs)
  then show ?case
    using assms(2) by (auto simp: distinct_map inj_on_def)
qed

lemma distinct_keys3: "distinct (keys3 P)"
  unfolding keys3_def
  by (rule distinct_pairs) (simp_all add: ns_def esbyn_def distinct_tl)

lemma keys3_not_21: "(2, 1) \<notin> set (keys3 P)"
  by (auto simp: keys3_def dest!: tl_ns)

lemma bucket_keys_split: "set (bucket_keys P) \<subseteq> insert (2, 1) (set (keys3 P))"
proof
  fix ne assume "ne \<in> set (bucket_keys P)"
  then obtain n e where ne: "ne = (n, e)" and n: "n \<in> set (ns P)" and e: "e \<in> set (esbyn P n)"
    by (auto simp: bucket_keys_def)
  show "ne \<in> insert (2, 1) (set (keys3 P))"
  proof (cases "n = 2")
    case True
    with e have "e = 1" by (auto simp: esbyn_def emaxs_def)
    with True ne show ?thesis by simp
  next
    case False
    with n have "n \<in> set (tl (ns P))" by (auto simp: ns_def tl_upt simp del: upt_Suc)
    with e ne show ?thesis by (auto simp: keys3_def)
  qed
qed

lemma fold_append_map: "fold (\<lambda>x ws. ws @ [f x]) xs acc = acc @ map f xs"
  by (induction xs arbitrary: acc) auto

lemma weigh_bucket_eq:
  "weigh_bucket P n e st =
     (case map_of st (n, e) of None \<Rightarrow> Inl KeyError | Some b \<Rightarrow> Inr (put (n, e) (weighed P (n, e) b) st))"
  by (simp add: weigh_bucket_def weighed_def fold_append_map split: option.splits)

lemma weigh_all:
  assumes "for_each (\<lambda>(n, e). weigh_bucket P n e) keys st = Inr st'" and "distinct keys"
  shows "map fst st' = map fst st \<and>
     (\<forall>ne. map_of st' ne =
        (if ne \<in> set keys then map_option (weighed P ne) (map_of st ne) else map_of st ne))"
  using assms
proof (induction keys arbitrary: st)
  case Nil
  then show ?case by simp
next
  case (Cons k keys)
  obtain n e where k: "k = (n, e)" by (cases k)
  from Cons.prems(1) k obtain t where t: "weigh_bucket P n e st = Inr t"
    and rest0: "for_each (\<lambda>(n, e). weigh_bucket P n e) keys t = Inr st'"
    by (auto split: sum.splits)
  from t obtain b where b: "map_of st (n, e) = Some b"
    and t_eq: "t = put (n, e) (weighed P (n, e) b) st"
    by (auto simp: weigh_bucket_eq split: option.splits)
  from rest0 t_eq have
    rest: "for_each (\<lambda>(n, e). weigh_bucket P n e) keys (put (n, e) (weighed P (n, e) b) st) = Inr st'"
    by simp
  from Cons.prems(2) have d: "distinct keys" and notin: "k \<notin> set keys" by simp_all
  from Cons.IH[OF rest d] have
    IH: "map fst st' = map fst (put (n, e) (weighed P (n, e) b) st)"
      "\<And>ne. map_of st' ne =
        (if ne \<in> set keys then map_option (weighed P ne) (map_of (put (n, e) (weighed P (n, e) b) st) ne)
         else map_of (put (n, e) (weighed P (n, e) b) st) ne)"
    by blast+
  show ?case
  proof (intro conjI allI)
    show "map fst st' = map fst st" using IH(1) by (simp add: map_fst_put)
  next
    fix ne
    show "map_of st' ne =
        (if ne \<in> set (k # keys) then map_option (weighed P ne) (map_of st ne) else map_of st ne)"
      using IH(2)[of ne] notin b k by (auto simp: map_of_put split: option.splits)
  qed
qed

lemma add_if_new_keys: "add_if_new chi P g ne st = Inr st' \<Longrightarrow> map fst st' = map fst st"
  by (erule add_if_new_cases) (simp_all add: map_fst_put)

lemma generate_simple_keys:
  assumes "generate_simple chi P (init_store P) = Inr st'"
  shows "map fst st' = bucket_keys P"
  using assms
proof (rule generate_simple_invariant)
  fix t' assume "add_if_new chi P Full2 (2, 1) (init_store P) = Inr t'"
  then show "map fst t' = bucket_keys P"
    by (simp add: add_if_new_keys init_store_def comp_def)
next
  fix n e t t'
  assume "map fst t = bucket_keys P" "grow_bucket chi P n e t = Inr t'"
  from this(2,1) show "map fst t' = bucket_keys P"
    by (rule grow_bucket_invariant) (simp_all add: add_if_new_keys)
qed

lemma map_of_key: "map_of st k = Some v \<Longrightarrow> k \<in> set (map fst st)"
  by (auto dest: map_of_SomeD intro: rev_image_eqI)

text \<open>The store of a finished \<open>PrimeGenerator\<close>, bucket by bucket.\<close>

lemma PrimeGenerator_store:
  assumes run: "PrimeGenerator chi P = Inr st" and look: "map_of st ne = Some b"
  shows "ne \<in> set (bucket_keys P)"
    and "sorted_wrt (\<lambda>g h. \<not> isomorphic h g) (simple_graphs b)"
    and "\<forall>g\<in>set (simple_graphs b). chi (get_edgelist g) (fst ne) \<le> cmax P \<and> maxdegree g \<le> vmax P"
    and "\<forall>g\<in>set (simple_graphs b). vcount g = fst ne \<and> length (edgelist g) = snd ne"
    and "ne = (2, 1) \<Longrightarrow> length (simple_graphs b) \<le> 1"
    and "edges b = map get_edgelist (simple_graphs b)"
    and "chis b = map (\<lambda>g. chi (get_edgelist g) (fst ne)) (simple_graphs b)"
    and "vs b = map maxdegree (simple_graphs b)"
    and "weights b = (if ne = (2, 1) then [map (\<lambda>d. [d]) [1..<dmax P + 1]]
                      else map (\<lambda>graph. weightings_for P graph ne) (simple_graphs b))"
proof -
  from run obtain s1 where gs: "generate_simple chi P (init_store P) = Inr s1"
    and gw: "generate_weights P s1 = Inr st"
    unfolding PrimeGenerator_def by (auto split: sum.splits)
  from gw obtain b21 where b21: "map_of s1 (2, 1) = Some b21"
    unfolding generate_weights_def by (auto split: option.splits)
  define s2 where
    "s2 = put (2, 1) (b21\<lparr>weights := weights b21 @ [map (\<lambda>d. [d]) [1..<dmaxs P (2, 1) + 1]]\<rparr>) s1"
  from gw b21 have "for_each (\<lambda>n. for_each (\<lambda>e. weigh_bucket P n e) (esbyn P n)) (tl (ns P)) s2 = Inr st"
    unfolding generate_weights_def s2_def by simp
  then have "for_each (\<lambda>(n, e). weigh_bucket P n e) (keys3 P) s2 = Inr st"
    by (simp add: for_each_nested keys3_def)
  from weigh_all[OF this distinct_keys3] have
    keys: "map fst st = map fst s2"
    and final: "\<And>k. map_of st k =
        (if k \<in> set (keys3 P) then map_option (weighed P k) (map_of s2 k) else map_of s2 k)"
    by blast+
  have keys1: "map fst s1 = bucket_keys P" using gs by (rule generate_simple_keys)
  from generate_simple_shape[OF gs] have shape: "shape_ok chi s1" and nw: "no_weights s1" by simp_all
  have sok: "simple_ok chi P s1"
    using gs init_store_simple_ok by (rule generate_simple_ok)
  from look have "ne \<in> set (map fst st)" by (rule map_of_key)
  with keys keys1 show in_keys: "ne \<in> set (bucket_keys P)" by (simp add: s2_def map_fst_put)
  have "\<exists>b1. map_of s1 ne = Some b1 \<and> simple_graphs b = simple_graphs b1 \<and> edges b = edges b1
      \<and> chis b = chis b1 \<and> vs b = vs b1
      \<and> weights b = (if ne = (2, 1) then [map (\<lambda>d. [d]) [1..<dmax P + 1]]
                      else map (\<lambda>graph. weightings_for P graph ne) (simple_graphs b))"
  proof (cases "ne = (2, 1)")
    case True
    with final[of ne] look keys3_not_21[of P] have "map_of s2 (2, 1) = Some b" by simp
    with b21 have "b = b21\<lparr>weights := weights b21 @ [map (\<lambda>d. [d]) [1..<dmaxs P (2, 1) + 1]]\<rparr>"
      by (simp add: s2_def map_of_put)
    moreover from nw b21 have "weights b21 = []" unfolding no_weights_def by blast
    ultimately show ?thesis using True b21 by (simp add: dmaxs_def)
  next
    case False
    with in_keys bucket_keys_split[of P] have k3: "ne \<in> set (keys3 P)" by auto
    with final[of ne] look have "map_option (weighed P ne) (map_of s2 ne) = Some b" by simp
    then obtain b1 where b1: "map_of s2 ne = Some b1" and b: "b = weighed P ne b1"
      by (cases "map_of s2 ne") auto
    from b1 False have "map_of s1 ne = Some b1" by (simp add: s2_def map_of_put)
    moreover from this nw have "weights b1 = []" unfolding no_weights_def by blast
    ultimately show ?thesis using b False by (simp add: weighed_def)
  qed
  then obtain b1 where b1: "map_of s1 ne = Some b1" and same: "simple_graphs b = simple_graphs b1"
    "edges b = edges b1" "chis b = chis b1" "vs b = vs b1"
    and w: "weights b = (if ne = (2, 1) then [map (\<lambda>d. [d]) [1..<dmax P + 1]]
                      else map (\<lambda>graph. weightings_for P graph ne) (simple_graphs b))"
    by blast
  from w show "weights b = (if ne = (2, 1) then [map (\<lambda>d. [d]) [1..<dmax P + 1]]
                      else map (\<lambda>graph. weightings_for P graph ne) (simple_graphs b))" .
  from sok[unfolded simple_ok_def, rule_format, OF b1] same
  show "sorted_wrt (\<lambda>g h. \<not> isomorphic h g) (simple_graphs b)"
    and "\<forall>g\<in>set (simple_graphs b). chi (get_edgelist g) (fst ne) \<le> cmax P \<and> maxdegree g \<le> vmax P"
    by simp_all
  from shape[unfolded shape_ok_def, rule_format, OF b1] same
  show "\<forall>g\<in>set (simple_graphs b). vcount g = fst ne \<and> length (edgelist g) = snd ne"
    and "ne = (2, 1) \<Longrightarrow> length (simple_graphs b) \<le> 1"
    and "edges b = map get_edgelist (simple_graphs b)"
    and "chis b = map (\<lambda>g. chi (get_edgelist g) (fst ne)) (simple_graphs b)"
    and "vs b = map maxdegree (simple_graphs b)"
    by simp_all
qed

section \<open>The finished store\<close>

lemma map_of_present: "k \<in> set (map fst st) \<Longrightarrow> \<exists>v. map_of st k = Some v"
  by (cases "map_of st k") (auto simp: map_of_eq_None_iff)

lemma PrimeGenerator_single_edge_bucket:
  assumes run: "PrimeGenerator chi P = Inr st"
  shows "\<exists>b. map_of st (2, 1) = Some b"
proof -
  from run obtain s1 where gw: "generate_weights P s1 = Inr st"
    unfolding PrimeGenerator_def by (auto split: sum.splits)
  from gw obtain b21 where b21: "map_of s1 (2, 1) = Some b21"
    unfolding generate_weights_def by (auto split: option.splits)
  define s2 where
    "s2 = put (2, 1) (b21\<lparr>weights := weights b21 @ [map (\<lambda>d. [d]) [1..<dmaxs P (2, 1) + 1]]\<rparr>) s1"
  from gw b21 have "for_each (\<lambda>n. for_each (\<lambda>e. weigh_bucket P n e) (esbyn P n)) (tl (ns P)) s2 = Inr st"
    unfolding generate_weights_def s2_def by simp
  then have "for_each (\<lambda>(n, e). weigh_bucket P n e) (keys3 P) s2 = Inr st"
    by (simp add: for_each_nested keys3_def)
  from weigh_all[OF this distinct_keys3] have "map fst st = map fst s1"
    by (simp add: s2_def map_fst_put)
  moreover from b21 have "(2, 1) \<in> set (map fst s1)" by (rule map_of_key)
  ultimately show ?thesis by (simp add: map_of_present)
qed

lemma store2: "PrimeGenerator chi_two (mk_params 2 None None None None) = Inr example_store2"
  by code_simp

lemma store3: "PrimeGenerator chi_two (mk_params 3 None None None None) = Inr example_store3"
  by code_simp

lemma results2:
  "c_specs (results example_store2) = example_rows2 2 2"
  "out_weights (results example_store2) = [[1], [2], [1, 1]]"
  "out_edges (results example_store2) = [[(0, 1)], [(0, 1), (0, 2)]]"
  by code_simp+

section \<open>The weighting search for one graph\<close>

lemma fold_invariant:
  assumes "I s" and "\<And>x t. x \<in> set xs \<Longrightarrow> I t \<Longrightarrow> I (f x t)"
  shows "I (fold f xs s)"
  using assms by (induction xs arbitrary: s) auto

lemma fold_grows:
  assumes "\<And>x t. set t \<subseteq> set (f x t)"
  shows "set s \<subseteq> set (fold f xs s)"
proof (induction xs arbitrary: s)
  case Nil
  show ?case by simp
next
  case (Cons x xs)
  have "set s \<subseteq> set (f x s)" by (rule assms)
  also have "\<dots> \<subseteq> set (fold f xs (f x s))" by (rule Cons.IH)
  finally show ?case by simp
qed

lemma fold_covers:
  assumes grows: "\<And>x t. set t \<subseteq> set (f x t)"
    and covers: "\<And>x t. x \<in> set xs \<Longrightarrow> C x (f x t)"
    and mono: "\<And>x t t'. C x t \<Longrightarrow> set t \<subseteq> set t' \<Longrightarrow> C x t'"
    and x: "x \<in> set xs"
  shows "C x (fold f xs s)"
  using x covers
proof (induction xs arbitrary: s)
  case Nil
  then show ?case by simp
next
  case (Cons y ys)
  show ?case
  proof (cases "x \<in> set ys")
    case True
    then show ?thesis using Cons.IH Cons.prems(2) by simp
  next
    case False
    with Cons.prems(1) have "x = y" by simp
    with Cons.prems(2) have "C x (f y s)" by simp
    moreover have "set (f y s) \<subseteq> set (fold f ys (f y s))"
      using grows by (rule fold_grows)
    ultimately show ?thesis using mono by simp
  qed
qed

lemma weight_step_grows: "set ws \<subseteq> set (weight_step P g part ws)"
  by (auto simp: weight_step_def)

lemma weight_step_sorted:
  assumes "sorted_wrt (\<lambda>w1 w2. \<not> isomorphic_vf2 g w1 w2) ws"
  shows "sorted_wrt (\<lambda>w1 w2. \<not> isomorphic_vf2 g w1 w2) (weight_step P g part ws)"
  using assms by (auto simp: weight_step_def sorted_wrt_append list_ex_iff)

lemma weight_step_within_valency:
  assumes "\<forall>w\<in>set ws. \<not> (vmax P < dmax P \<and> vmax P < max_strength g w)"
  shows "\<forall>w\<in>set (weight_step P g part ws). \<not> (vmax P < dmax P \<and> vmax P < max_strength g w)"
  using assms by (auto simp: weight_step_def)

lemma weight_step_from_candidates:
  assumes "set ws \<subseteq> A" and "part \<in> A"
  shows "set (weight_step P g part ws) \<subseteq> A"
  using assms by (auto simp: weight_step_def)

lemma weight_step_covers:
  "part \<in> set (weight_step P g part ws)
   \<or> (\<exists>w\<in>set (weight_step P g part ws). isomorphic_vf2 g w part)
   \<or> (vmax P < dmax P \<and> vmax P < max_strength g part)"
  by (auto simp: weight_step_def list_ex_iff)

lemma weightings_for_sorted:
  "sorted_wrt (\<lambda>w1 w2. \<not> isomorphic_vf2 g w1 w2) (weightings_for P g ne)"
  unfolding weightings_for_def
proof (rule fold_invariant)
  show "sorted_wrt (\<lambda>w1 w2. \<not> isomorphic_vf2 g w1 w2) []" by simp
next
  fix d t
  assume "sorted_wrt (\<lambda>w1 w2. \<not> isomorphic_vf2 g w1 w2) t"
  then show "sorted_wrt (\<lambda>w1 w2. \<not> isomorphic_vf2 g w1 w2)
      (fold (weight_step P g) (int_partition_ordered d (snd ne)) t)"
    by (rule fold_invariant) (rule weight_step_sorted)
qed

lemma weightings_for_within_valency:
  "\<forall>w\<in>set (weightings_for P g ne). \<not> (vmax P < dmax P \<and> vmax P < max_strength g w)"
  unfolding weightings_for_def
proof (rule fold_invariant)
  show "\<forall>w\<in>set []. \<not> (vmax P < dmax P \<and> vmax P < max_strength g w)" by simp
next
  fix d t
  assume "\<forall>w\<in>set t. \<not> (vmax P < dmax P \<and> vmax P < max_strength g w)"
  then show "\<forall>w\<in>set (fold (weight_step P g) (int_partition_ordered d (snd ne)) t).
      \<not> (vmax P < dmax P \<and> vmax P < max_strength g w)"
    by (rule fold_invariant) (rule weight_step_within_valency)
qed

lemma weightings_for_candidates:
  "set (weightings_for P g ne)
     \<subseteq> (\<Union>d\<in>set [snd ne..<dmaxs P ne + 1]. set (int_partition_ordered d (snd ne)))"
  unfolding weightings_for_def
proof (rule fold_invariant)
  show "set [] \<subseteq> (\<Union>d\<in>set [snd ne..<dmaxs P ne + 1]. set (int_partition_ordered d (snd ne)))"
    by simp
next
  fix d t
  assume d: "d \<in> set [snd ne..<dmaxs P ne + 1]"
    and t: "set t \<subseteq> (\<Union>d\<in>set [snd ne..<dmaxs P ne + 1]. set (int_partition_ordered d (snd ne)))"
  from t show "set (fold (weight_step P g) (int_partition_ordered d (snd ne)) t)
        \<subseteq> (\<Union>d\<in>set [snd ne..<dmaxs P ne + 1]. set (int_partition_ordered d (snd ne)))"
  proof (rule fold_invariant)
    fix part u
    assume "part \<in> set (int_partition_ordered d (snd ne))"
      and "set u \<subseteq> (\<Union>d\<in>set [snd ne..<dmaxs P ne + 1]. set (int_partition_ordered d (snd ne)))"
    with d show "set (weight_step P g part u)
        \<subseteq> (\<Union>d\<in>set [snd ne..<dmaxs P ne + 1]. set (int_partition_ordered d (snd ne)))"
      by (intro weight_step_from_candidates) auto
  qed
qed

lemma weightings_for_covers:
  assumes d: "d \<in> set [snd ne..<dmaxs P ne + 1]"
    and part: "part \<in> set (int_partition_ordered d (snd ne))"
  shows "part \<in> set (weightings_for P g ne)
   \<or> (\<exists>w\<in>set (weightings_for P g ne). isomorphic_vf2 g w part)
   \<or> (vmax P < dmax P \<and> vmax P < max_strength g part)"
proof -
  define C where "C = (\<lambda>part ws. part \<in> set ws \<or> (\<exists>w\<in>set ws. isomorphic_vf2 g w part)
     \<or> (vmax P < dmax P \<and> vmax P < max_strength g part))"
  have mono: "C p t'" if "C p t" "set t \<subseteq> set t'" for p t t'
    using that unfolding C_def by blast
  have step: "C p (weight_step P g p t)" for p t
    unfolding C_def by (rule weight_step_covers)
  have inner_grows: "set t \<subseteq> set (fold (weight_step P g) ps t)" for ps t
    by (rule fold_grows) (rule weight_step_grows)
  have inner: "C p (fold (weight_step P g) ps t)" if "p \<in> set ps" for p ps t
  proof (rule fold_covers[where C = C])
    show "set u \<subseteq> set (weight_step P g x u)" for x u by (rule weight_step_grows)
    show "C x (weight_step P g x u)" for x u by (rule step)
    show "C x u \<Longrightarrow> set u \<subseteq> set u' \<Longrightarrow> C x u'" for x u u' by (rule mono)
    show "p \<in> set ps" by (rule that)
  qed
  define D where "D = (\<lambda>d ws. \<forall>p\<in>set (int_partition_ordered d (snd ne)). C p ws)"
  have "D d (fold (\<lambda>d. fold (weight_step P g) (int_partition_ordered d (snd ne)))
                   [snd ne..<dmaxs P ne + 1] [])"
  proof (rule fold_covers[where C = D])
    show "set t \<subseteq> set (fold (weight_step P g) (int_partition_ordered x (snd ne)) t)" for x t
      by (rule inner_grows)
    show "D x (fold (weight_step P g) (int_partition_ordered x (snd ne)) t)" for x t
      unfolding D_def by (intro ballI inner)
    show "D x t \<Longrightarrow> set t \<subseteq> set t' \<Longrightarrow> D x t'" for x t t'
      unfolding D_def by (intro ballI mono[of _ t t']) simp_all
    show "d \<in> set [snd ne..<dmaxs P ne + 1]" by (rule d)
  qed
  with part have "C part (weightings_for P g ne)"
    unfolding weightings_for_def D_def by simp
  then show ?thesis unfolding C_def .
qed

lemma int_partition_ordered_parts:
  "xs \<in> set (int_partition_ordered d e) \<Longrightarrow>
     length xs = e \<and> sum_list xs = d \<and> (\<forall>x\<in>set xs. 1 \<le> x)"
proof (induction e arbitrary: d xs)
  case 0
  then show ?case by (auto split: if_splits)
next
  case (Suc e)
  from Suc.prems obtain k ys where xs: "xs = k # ys" and k: "1 \<le> k" "k \<le> d"
    and ys: "ys \<in> set (int_partition_ordered (d - k) e)"
    by auto
  from Suc.IH[OF ys] have "length ys = e" "sum_list ys = d - k" "\<forall>x\<in>set ys. 1 \<le> x"
    by simp_all
  with xs k show ?case by simp
qed

lemma weightings_for_parts:
  assumes "w \<in> set (weightings_for P g ne)"
  shows "length w = snd ne \<and> snd ne \<le> sum_list w \<and> sum_list w \<le> dmax P"
proof -
  from assms weightings_for_candidates[of P g ne] obtain d where
    d: "d \<in> set [snd ne..<dmaxs P ne + 1]" and w: "w \<in> set (int_partition_ordered d (snd ne))"
    by blast
  from int_partition_ordered_parts[OF w] d show ?thesis by (auto simp: dmaxs_def)
qed

section \<open>The prime spec table\<close>

lemma add_row_ok:
  assumes "rows_ok rs" and "length weighting = e" and "\<forall>x\<in>set weighting. 1 \<le> x"
  shows "rows_ok (add_row n e c v weighting rs)"
  using assms
  by (auto simp: rows_ok_def add_row_def Let_def nth_append)

lemma add_graph_ok:
  assumes "rows_ok rs" and "\<forall>w\<in>set wghts. length w = e \<and> (\<forall>x\<in>set w. 1 \<le> x)"
  shows "rows_ok (add_graph n e (edgs, wghts, c, v) rs)"
proof -
  have "rows_ok (fold (add_row n e c v) wghts rs)"
    using assms(1)
  proof (rule fold_invariant)
    fix w t assume "w \<in> set wghts" "rows_ok t"
    with assms(2) show "rows_ok (add_row n e c v w t)" by (intro add_row_ok) auto
  qed
  then show ?thesis
    by (simp add: add_graph_def Let_def rows_ok_def)
qed

lemma results_bucket_ok:
  assumes "rows_ok rs"
    and "\<And>b. map_of st ne = Some b \<Longrightarrow>
           \<forall>ws\<in>set (weights b). \<forall>w\<in>set ws. length w = snd ne \<and> (\<forall>x\<in>set w. 1 \<le> x)"
  shows "rows_ok (results_bucket st ne rs)"
proof (cases "map_of st ne")
  case None
  with assms(1) show ?thesis by (simp add: results_bucket_def)
next
  case (Some b)
  have "rows_ok (fold (add_graph (fst ne) (snd ne))
               (zip (edges b) (zip (weights b) (zip (chis b) (vs b)))) rs)"
    using assms(1)
  proof (rule fold_invariant)
    fix z t
    assume z: "z \<in> set (zip (edges b) (zip (weights b) (zip (chis b) (vs b))))" and t: "rows_ok t"
    obtain edgs wghts c v where zz: "z = (edgs, wghts, c, v)" by (cases z) auto
    with z have "(wghts, c, v) \<in> set (zip (weights b) (zip (chis b) (vs b)))"
      by (auto dest: set_zip_rightD)
    then have "wghts \<in> set (weights b)"
      by (rule set_zip_leftD)
    with assms(2)[OF Some] have "\<forall>w\<in>set wghts. length w = snd ne \<and> (\<forall>x\<in>set w. 1 \<le> x)"
      by blast
    with t show "rows_ok (add_graph (fst ne) (snd ne) z t)"
      unfolding zz by (rule add_graph_ok)
  qed
  with Some show ?thesis by (simp add: results_bucket_def)
qed

lemma PrimeGenerator_weights_parts:
  assumes run: "PrimeGenerator chi P = Inr st" and look: "map_of st ne = Some b"
  shows "\<forall>ws\<in>set (weights b). \<forall>w\<in>set ws. length w = snd ne \<and> (\<forall>x\<in>set w. 1 \<le> x)"
proof (cases "ne = (2, 1)")
  case True
  with PrimeGenerator_store(9)[OF run look] show ?thesis by auto
next
  case False
  with PrimeGenerator_store(9)[OF run look]
  have w: "weights b = map (\<lambda>graph. weightings_for P graph ne) (simple_graphs b)" by simp
  show ?thesis
  proof (intro ballI)
    fix ws w assume "ws \<in> set (weights b)" "w \<in> set ws"
    with w obtain g where "w \<in> set (weightings_for P g ne)" by auto
    with weightings_for_candidates[of P g ne] obtain d where
      "w \<in> set (int_partition_ordered d (snd ne))" by blast
    from int_partition_ordered_parts[OF this]
    show "length w = snd ne \<and> (\<forall>x\<in>set w. 1 \<le> x)" by simp
  qed
qed

lemma results_ok:
  assumes "PrimeGenerator chi P = Inr st"
  shows "rows_ok (results st)"
  unfolding results_def
proof (rule fold_invariant)
  show "rows_ok \<lparr>ks = Map.empty, g_next = 0, w_next = 0, c_specs = [], out_edges = [],
                 out_weights = []\<rparr>"
    by (simp add: rows_ok_def)
next
  fix ne t assume "rows_ok t"
  then show "rows_ok (results_bucket st ne t)"
    by (rule results_bucket_ok) (rule PrimeGenerator_weights_parts[OF assms])
qed

lemma length_le_sum_list:
  fixes xs :: "nat list"
  shows "\<forall>x\<in>set xs. 1 \<le> x \<Longrightarrow> length xs \<le> sum_list xs"
  by (induction xs) auto

section \<open>Composite generation\<close>

lemma parts_from_parts:
  "xs \<in> set (parts_from m n) \<Longrightarrow> sum_list xs = n \<and> (\<forall>x\<in>set xs. 1 \<le> x \<and> m \<le> x)"
proof (induction m n arbitrary: xs rule: parts_from.induct)
  case (1 m n)
  show ?case
  proof (cases "n = 0")
    case True
    then have "parts_from m n = [[]]" by (subst parts_from.simps) (rule if_P)
    with "1.prems" True show ?thesis by simp
  next
    case False
    then have "parts_from m n =
        concat (map (\<lambda>k. map ((#) k) (parts_from k (n - k))) [max 1 m..<Suc n])"
      by (subst parts_from.simps) (rule if_not_P)
    with "1.prems" have
      "xs \<in> set (concat (map (\<lambda>k. map ((#) k) (parts_from k (n - k))) [max 1 m..<Suc n]))"
      by (simp only:)
    then obtain k ys where kin: "k \<in> set [max 1 m..<Suc n]"
      and ys: "ys \<in> set (parts_from k (n - k))" and xs: "xs = k # ys"
      by (auto simp del: set_upt upt_Suc)
    from kin have k: "1 \<le> k" "m \<le> k" "k \<le> n" by auto
    from "1.IH"[OF False kin ys] have "sum_list ys = n - k" "\<forall>x\<in>set ys. 1 \<le> x \<and> k \<le> x"
      by simp_all
    with xs k show ?thesis by auto
  qed
qed

lemma filter_err_set:
  "filter_err keep xs = Inr ys \<Longrightarrow> y \<in> set ys \<Longrightarrow> y \<in> set xs \<and> keep y = Inr True"
proof (induction xs arbitrary: ys)
  case Nil
  then show ?case by simp
next
  case (Cons x xs)
  from Cons.prems(1) have
    run: "(case keep x of Inl err \<Rightarrow> Inl err
           | Inr b \<Rightarrow> (case filter_err keep xs of Inl err \<Rightarrow> Inl err
                       | Inr zs \<Rightarrow> Inr (if b then x # zs else zs))) = Inr ys"
    by (simp only: filter_err.simps)
  then obtain b where b: "keep x = Inr b" by (cases "keep x") simp_all
  from run b obtain zs where zs: "filter_err keep xs = Inr zs"
    by (cases "filter_err keep xs") simp_all
  from run b zs have ys: "ys = (if b then x # zs else zs)" by simp
  show ?case
  proof (cases "y \<in> set zs")
    case True
    from Cons.IH[OF zs True] show ?thesis by simp
  next
    case False
    with Cons.prems(2) ys have "b" "y = x" by (simp_all split: if_splits)
    with b show ?thesis by simp
  qed
qed

lemma n_parts_of_parts:
  assumes "n_parts_of na n = Inr n_parts" and "p \<in> set n_parts"
  shows "2 \<le> length p \<and> 4 \<le> n"
proof -
  from assms(1) obtain ps where ps: "filter_err (good_part na) (int_partition_unordered n) = Inr ps"
    and np: "n_parts = sort_key length ps"
    unfolding n_parts_of_def by (auto split: sum.splits)
  from assms(2) np have "p \<in> set ps" by simp
  from filter_err_set[OF ps this] have p: "p \<in> set (int_partition_unordered n)"
    and good: "good_part na p = Inr True" by simp_all
  from good have ones: "1 \<notin> set p" and len: "1 < length p"
    unfolding good_part_def by (auto split: if_splits sum.splits)
  from parts_from_parts[OF p[unfolded int_partition_unordered_def]]
  have sum: "sum_list p = n" and pos: "\<forall>x\<in>set p. 1 \<le> x" by simp_all
  from ones pos have "\<forall>x\<in>set p. 2 \<le> x"
    by (metis Suc_1 Suc_leI le_neq_implies_less)
  then have "2 * length p \<le> sum_list p"
    by (induction p) auto
  with sum len show ?thesis by simp
qed

lemma those_length: "those xs = Some ys \<Longrightarrow> length ys = length xs"
  by (induction xs arbitrary: ys) (auto split: option.splits)

lemma py_set_set: "set (py_set xs) = set xs"
  by (induction xs) auto

lemma candidate_specs_length:
  assumes "spec \<in> set (candidate_specs ks_d n_part d_parts)"
    and "\<forall>dp\<in>set d_parts. length dp = length n_part"
  shows "length spec = length n_part"
proof -
  from assms(1) obtain npo dp where npo: "npo \<in> set (permutations n_part)"
    and dp: "dp \<in> set d_parts" and spec: "spec = sort (zip npo dp)"
    unfolding candidate_specs_def by (auto simp: py_set_set)
  from npo have "mset npo = mset n_part" by (simp add: set_permutations)
  then have "length npo = length n_part" by (rule mset_eq_length)
  with dp assms(2) spec show ?thesis by simp
qed

lemma kspec_step_ok:
  assumes "kspec_step G n d spec kspec (kcount, out) = Inr (kcount', out')" and "disc_ok out"
    and "4 \<le> n" "n \<le> 2 * d" "2 \<le> length kspec"
  shows "disc_ok out'"
proof -
  from assms(1) obtain formula cm em vm where
    "out' = out\<lparr>disc_formulae := disc_formulae out @ [sort formula],
                 disc_specs := disc_specs out @
                   [\<lparr>col_n = n, col_e = em, col_d = d, col_v = vm, col_k = kcount,
                     col_g = - 1, col_w = - 1, col_c = cm, col_p = length kspec\<rparr>]\<rparr>"
    unfolding kspec_step_def by (auto split: sum.splits)
  with assms(2-) show ?thesis by (simp add: disc_ok_def)
qed

lemma spec_step_ok:
  assumes run: "spec_step G n d spec out = Inr out'" and ok: "disc_ok out"
    and n: "4 \<le> n" "n \<le> 2 * d" and len: "2 \<le> length spec"
  shows "disc_ok out'"
proof -
  from run obtain counts kcount' where counts: "those (map (cg_ks G) spec) = Some counts"
    and loop: "for_each (kspec_step G n d spec) (product_ranges counts)
                 (case cg_ks G (n, d) of None \<Rightarrow> 0 | Some c \<Rightarrow> c, out) = Inr (kcount', out')"
    unfolding spec_step_def by (auto simp: Let_def split: option.splits sum.splits prod.splits)
  from those_length[OF counts] have clen: "length counts = length spec" by simp
  have "disc_ok (snd (kcount', out'))"
    using loop
  proof (rule for_each_invariant[where I = "\<lambda>s. disc_ok (snd s)"])
    show "disc_ok (snd (case cg_ks G (n, d) of None \<Rightarrow> 0 | Some c \<Rightarrow> c, out))"
      using ok by simp
  next
    fix kspec t t'
    assume k: "kspec \<in> set (product_ranges counts)" and t: "disc_ok (snd t)"
      and step: "kspec_step G n d spec kspec t = Inr t'"
    from k have "length kspec = length counts"
      unfolding product_ranges_def by (auto dest: in_set_product_lists_length)
    with clen len have "2 \<le> length kspec" by simp
    obtain kc u where tt: "t = (kc, u)" by (cases t)
    obtain kc' u' where tt': "t' = (kc', u')" by (cases t')
    from step t n \<open>2 \<le> length kspec\<close> have "disc_ok u'"
      unfolding tt tt' by (intro kspec_step_ok[of G n d spec kspec kc u kc' u']) simp_all
    then show "disc_ok (snd t')" by (simp add: tt')
  qed
  then show ?thesis by simp
qed

lemma n_part_step_ok:
  assumes run: "n_part_step G n d n_part out = Inr out'" and ok: "disc_ok out"
    and n: "4 \<le> n" "n \<le> 2 * d" and len: "2 \<le> length n_part"
  shows "disc_ok out'"
proof -
  define d_parts where "d_parts = filter (\<lambda>x. length x = length n_part) (int_partition_unordered d)"
  show ?thesis
  proof (cases "length d_parts = 0")
    case True
    with run ok show ?thesis by (simp add: n_part_step_def d_parts_def)
  next
    case False
    with run have "for_each (spec_step G n d) (candidate_specs (cg_ks G) n_part d_parts) out = Inr out'"
      by (simp add: n_part_step_def d_parts_def)
    then show ?thesis using ok
    proof (rule for_each_invariant)
      fix spec t t'
      assume spec: "spec \<in> set (candidate_specs (cg_ks G) n_part d_parts)"
        and t: "disc_ok t" and step: "spec_step G n d spec t = Inr t'"
      have "length spec = length n_part"
        using spec by (rule candidate_specs_length) (simp add: d_parts_def)
      with len have "2 \<le> length spec" by simp
      with step t n show "disc_ok t'" by (rule spec_step_ok)
    qed
  qed
qed

lemma n_step_ok:
  assumes run: "n_step G n out = Inr out'" and ok: "disc_ok out"
  shows "disc_ok out'"
proof -
  from run obtain n_parts dm where np: "n_parts_of (cg_nmax_avail G) n = Inr n_parts"
    and loop: "for_each (\<lambda>d. for_each (n_part_step G n d) n_parts) [(n - 1) div 2 + 1..<dm + 1] out
                 = Inr out'"
    unfolding n_step_def by (auto split: sum.splits option.splits)
  from loop ok show ?thesis
  proof (rule for_each_invariant)
    fix d t t'
    assume d: "d \<in> set [(n - 1) div 2 + 1..<dm + 1]" and t: "disc_ok t"
      and inner: "for_each (n_part_step G n d) n_parts t = Inr t'"
    from d have nd: "n \<le> 2 * d" by auto
    from inner t show "disc_ok t'"
    proof (rule for_each_invariant)
      fix n_part u u'
      assume p: "n_part \<in> set n_parts" and u: "disc_ok u"
        and step: "n_part_step G n d n_part u = Inr u'"
      from n_parts_of_parts[OF np p] have "2 \<le> length n_part" "4 \<le> n" by simp_all
      with step u nd show "disc_ok u'" by (intro n_part_step_ok[OF step u]) simp_all
    qed
  qed
qed

lemma np_mask_subset: "set (np_mask xs msk) \<subseteq> set xs"
  unfolding np_mask_def by (auto dest: set_zip_leftD)

lemma length_unique_mask: "length (unique_mask xs seen) = length xs"
  by (induction xs arbitrary: seen) auto

lemma length_np_mask:
  "length xs = length msk \<Longrightarrow> length (np_mask xs msk) = length (filter id msk)"
proof (induction xs msk rule: list_induct2)
  case Nil
  show ?case by (simp add: np_mask_def)
next
  case (Cons x xs m msk)
  then show ?case by (simp add: np_mask_def)
qed

lemma unique_mask_distinct:
  "distinct (np_mask xs (unique_mask xs seen)) \<and>
   set (np_mask xs (unique_mask xs seen)) \<inter> set seen = {}"
proof (induction xs arbitrary: seen)
  case Nil
  show ?case by (simp add: np_mask_def)
next
  case (Cons x xs)
  show ?case
  proof (cases "x \<in> set seen")
    case True
    have "np_mask (x # xs) (unique_mask (x # xs) seen) = np_mask xs (unique_mask xs seen)"
      using True by (simp add: np_mask_def)
    with Cons.IH[of seen] show ?thesis by simp
  next
    case False
    have eq: "np_mask (x # xs) (unique_mask (x # xs) seen) = x # np_mask xs (unique_mask xs (x # seen))"
      using False by (simp add: np_mask_def)
    from Cons.IH[of "x # seen"] False show ?thesis unfolding eq by auto
  qed
qed

lemma generate_disconnected_ok:
  assumes "generate_disconnected G = Inr res"
  shows "disc_ok res \<and> distinct (disc_formulae res)"
proof -
  from assms obtain out where
    loop: "for_each (n_step G) (cg_ns G) \<lparr>disc_formulae = [], disc_specs = []\<rparr> = Inr out"
    and res: "res = \<lparr>disc_formulae = np_mask (disc_formulae out) (unique_mask (disc_formulae out) []),
                     disc_specs = np_mask (disc_specs out) (unique_mask (disc_formulae out) [])\<rparr>"
    unfolding generate_disconnected_def by (auto simp: Let_def split: sum.splits)
  have "disc_ok \<lparr>disc_formulae = [], disc_specs = []\<rparr>" by (simp add: disc_ok_def)
  with loop have ok: "disc_ok out"
    by (rule for_each_invariant) (rule n_step_ok)
  then have len: "length (disc_formulae out) = length (disc_specs out)" by (simp add: disc_ok_def)
  have "length (disc_formulae res) = length (disc_specs res)"
    unfolding res by (simp add: length_np_mask length_unique_mask len[symmetric])
  moreover have "\<forall>f\<in>set (disc_formulae res). sorted f"
    using ok np_mask_subset[of "disc_formulae out"] unfolding res disc_ok_def by auto
  moreover have "\<forall>r\<in>set (disc_specs res).
         4 \<le> col_n r \<and> col_n r \<le> 2 * col_d r \<and> 2 \<le> col_p r \<and> col_g r = - 1 \<and> col_w r = - 1"
    using ok np_mask_subset[of "disc_specs out"] unfolding res disc_ok_def by auto
  moreover have "distinct (disc_formulae res)"
    unfolding res using unique_mask_distinct[of "disc_formulae out" "[]"] by simp
  ultimately show ?thesis by (simp add: disc_ok_def)
qed

section \<open>The generator for dmax = 2\<close>

lemma Generator_after_simple:
  assumes "generate_simple chi (mk_params d n e c v) (init_store (mk_params d n e c v)) = Inr st"
  shows "Generator chi d n e c v cd =
     (case generate_weights (mk_params d n e c v) st of
        Inl err \<Rightarrow> Inl err
      | Inr st' \<Rightarrow>
          (case CompositeGenerator (c_specs (results st')) cd of
             Inl err \<Rightarrow> Inl err
           | Inr disc \<Rightarrow>
               Inr \<lparr>gen_c_specs = c_specs (results st'), gen_edges = out_edges (results st'),
                    gen_weights = out_weights (results st'), gen_disc_specs = disc_specs disc,
                    gen_disc_formulae = disc_formulae disc\<rparr>))"
  by (simp add: Generator_def PrimeGenerator_def assms Let_def split: sum.splits)

lemma params2:
  "mk_params 2 None None None None = \<lparr>dmax = 2, nmax = 3, emax = 2, cmax = 3, vmax = 2\<rparr>"
  by (simp add: mk_params_def)

lemma keys2:
  "ns \<lparr>dmax = 2, nmax = 3, emax = 2, cmax = 3, vmax = 2\<rparr> = [2, 3]"
  "esbyn \<lparr>dmax = 2, nmax = 3, emax = 2, cmax = 3, vmax = 2\<rparr> 2 = [1]"
  "esbyn \<lparr>dmax = 2, nmax = 3, emax = 2, cmax = 3, vmax = 2\<rparr> 3 = [2]"
  by code_simp+

lemma init2:
  "init_store \<lparr>dmax = 2, nmax = 3, emax = 2, cmax = 3, vmax = 2\<rparr> =
     [((2, 1), empty_bucket), ((3, 2), empty_bucket)]"
  by (simp add: init_store_def bucket_keys_def keys2)

lemma graph_facts:
  "maxdegree Full2 = 1"
  "edgelist Full2 = [(0, 1)]"
  "attach_vertex 3 Full2 0 = \<lparr>vcount = 3, edgelist = [(0, 1), (0, 2)]\<rparr>"
  "attach_vertex 3 Full2 1 = \<lparr>vcount = 3, edgelist = [(0, 1), (1, 2)]\<rparr>"
  "maxdegree \<lparr>vcount = 3, edgelist = [(0, 1), (0, 2)]\<rparr> = 2"
  "maxdegree \<lparr>vcount = 3, edgelist = [(0, 1), (1, 2)]\<rparr> = 2"
  "isomorphic \<lparr>vcount = 3, edgelist = [(0, 1), (1, 2)]\<rparr> \<lparr>vcount = 3, edgelist = [(0, 1), (0, 2)]\<rparr>"
  "[0..<3 - 1] = [0, 1]"
  by code_simp+

text \<open>The store after \<open>generate_simple\<close>, by the complexities of the three candidates.\<close>

lemma simple2:
  "generate_simple chi \<lparr>dmax = 2, nmax = 3, emax = 2, cmax = 3, vmax = 2\<rparr>
           [((2, 1), empty_bucket), ((3, 2), empty_bucket)] =
     Inr (if 3 < chi [(0, 1)] 2 then [((2, 1), empty_bucket), ((3, 2), empty_bucket)]
          else [((2, 1), \<lparr>simple_graphs = [Full2], edges = [[(0, 1)]],
                    chis = [chi [(0, 1)] 2], vs = [1], weights = []\<rparr>),
                ((3, 2),
                 if chi [(0, 1), (0, 2)] 3 \<le> 3
                 then \<lparr>simple_graphs = [\<lparr>vcount = 3, edgelist = [(0, 1), (0, 2)]\<rparr>],
                       edges = [[(0, 1), (0, 2)]], chis = [chi [(0, 1), (0, 2)] 3], vs = [2],
                       weights = []\<rparr>
                 else if chi [(0, 1), (1, 2)] 3 \<le> 3
                 then \<lparr>simple_graphs = [\<lparr>vcount = 3, edgelist = [(0, 1), (1, 2)]\<rparr>],
                       edges = [[(0, 1), (1, 2)]], chis = [chi [(0, 1), (1, 2)] 3], vs = [2],
                       weights = []\<rparr>
                 else empty_bucket)])"
  using graph_facts keys2
  by (simp add: generate_simple_def grow_bucket_def add_if_new_def empty_bucket_def
      put_def get_edgelist_def Let_def)


lemma finish2_none:
  "generate_weights \<lparr>dmax = 2, nmax = 3, emax = 2, cmax = 3, vmax = 2\<rparr>
     [((2, 1), empty_bucket), ((3, 2), empty_bucket)] =
   Inr [((2, 1), \<lparr>simple_graphs = [], edges = [], chis = [], vs = [], weights = [[[1], [2]]]\<rparr>),
        ((3, 2), empty_bucket)]"
  "c_specs (results [((2, 1), \<lparr>simple_graphs = [], edges = [], chis = [], vs = [],
                                  weights = [[[1], [2]]]\<rparr>), ((3, 2), empty_bucket)]) = []"
  "CompositeGenerator [] DefaultDmaxs = Inl IndexError"
  by code_simp+

lemma finish2_path:
  "generate_weights \<lparr>dmax = 2, nmax = 3, emax = 2, cmax = 3, vmax = 2\<rparr>
     [((2, 1), \<lparr>simple_graphs = [Full2], edges = [[(0, 1)]], chis = [c1], vs = [1], weights = []\<rparr>),
      ((3, 2), \<lparr>simple_graphs = [\<lparr>vcount = 3, edgelist = es\<rparr>], edges = [es], chis = [c2],
                vs = [2], weights = []\<rparr>)] =
   Inr [((2, 1), \<lparr>simple_graphs = [Full2], edges = [[(0, 1)]], chis = [c1], vs = [1],
                  weights = [[[1], [2]]]\<rparr>),
        ((3, 2), \<lparr>simple_graphs = [\<lparr>vcount = 3, edgelist = es\<rparr>], edges = [es], chis = [c2],
                  vs = [2], weights = [[[1, 1]]]\<rparr>)]"
  "c_specs (results
     [((2, 1), \<lparr>simple_graphs = [Full2], edges = [[(0, 1)]], chis = [c1], vs = [1],
                weights = [[[1], [2]]]\<rparr>),
      ((3, 2), \<lparr>simple_graphs = [\<lparr>vcount = 3, edgelist = es\<rparr>], edges = [es], chis = [c2],
                vs = [2], weights = [[[1, 1]]]\<rparr>)]) = example_rows2 c1 c2"
  "out_edges (results
     [((2, 1), \<lparr>simple_graphs = [Full2], edges = [[(0, 1)]], chis = [c1], vs = [1],
                weights = [[[1], [2]]]\<rparr>),
      ((3, 2), \<lparr>simple_graphs = [\<lparr>vcount = 3, edgelist = es\<rparr>], edges = [es], chis = [c2],
                vs = [2], weights = [[[1, 1]]]\<rparr>)]) = [[(0, 1)], es]"
  "out_weights (results
     [((2, 1), \<lparr>simple_graphs = [Full2], edges = [[(0, 1)]], chis = [c1], vs = [1],
                weights = [[[1], [2]]]\<rparr>),
      ((3, 2), \<lparr>simple_graphs = [\<lparr>vcount = 3, edgelist = es\<rparr>], edges = [es], chis = [c2],
                vs = [2], weights = [[[1, 1]]]\<rparr>)]) = [[1], [2], [1, 1]]"
  "CompositeGenerator (example_rows2 c1 c2) DefaultDmaxs = Inr (example_disc2 c1)"
  by (code_simp, simp?)+


lemma finish2_edge:
  "generate_weights \<lparr>dmax = 2, nmax = 3, emax = 2, cmax = 3, vmax = 2\<rparr>
     [((2, 1), \<lparr>simple_graphs = [Full2], edges = [[(0, 1)]], chis = [c1], vs = [1], weights = []\<rparr>),
      ((3, 2), empty_bucket)] =
   Inr [((2, 1), \<lparr>simple_graphs = [Full2], edges = [[(0, 1)]], chis = [c1], vs = [1],
                  weights = [[[1], [2]]]\<rparr>),
        ((3, 2), empty_bucket)]"
  "c_specs (results
     [((2, 1), \<lparr>simple_graphs = [Full2], edges = [[(0, 1)]], chis = [c1], vs = [1],
                weights = [[[1], [2]]]\<rparr>),
      ((3, 2), empty_bucket)]) = take 2 (example_rows2 c1 c1)"
  "CompositeGenerator (take 2 (example_rows2 c1 c1)) DefaultDmaxs = Inr (example_disc2 c1)"
  by (code_simp, simp?)+

text \<open>The composite table of the generator for \<open>dmax = 2\<close>, whatever the complexities of
  the candidates are: the generator fails, or the table has one row.\<close>

lemma generator2_composite:
  assumes "Generator chi 2 None None None None DefaultDmaxs = Inr G"
  shows "gen_disc_specs G = disc_specs (example_disc2 (chi [(0, 1)] 2))"
proof -
  have simple: "generate_simple chi (mk_params 2 None None None None)
      (init_store (mk_params 2 None None None None)) =
     Inr (if 3 < chi [(0, 1)] 2 then [((2, 1), empty_bucket), ((3, 2), empty_bucket)]
          else [((2, 1), \<lparr>simple_graphs = [Full2], edges = [[(0, 1)]],
                    chis = [chi [(0, 1)] 2], vs = [1], weights = []\<rparr>),
                ((3, 2),
                 if chi [(0, 1), (0, 2)] 3 \<le> 3
                 then \<lparr>simple_graphs = [\<lparr>vcount = 3, edgelist = [(0, 1), (0, 2)]\<rparr>],
                       edges = [[(0, 1), (0, 2)]], chis = [chi [(0, 1), (0, 2)] 3], vs = [2],
                       weights = []\<rparr>
                 else if chi [(0, 1), (1, 2)] 3 \<le> 3
                 then \<lparr>simple_graphs = [\<lparr>vcount = 3, edgelist = [(0, 1), (1, 2)]\<rparr>],
                       edges = [[(0, 1), (1, 2)]], chis = [chi [(0, 1), (1, 2)] 3], vs = [2],
                       weights = []\<rparr>
                 else empty_bucket)])"
    by (simp only: params2 init2 simple2)
  note unfold = Generator_after_simple[OF simple, of DefaultDmaxs]
  show ?thesis
  proof (cases "3 < chi [(0, 1)] 2")
    case True
    with assms finish2_none show ?thesis
      unfolding unfold params2 by auto
  next
    case edge: False
    show ?thesis
    proof (cases "chi [(0, 1), (0, 2)] 3 \<le> 3")
      case True
      with assms edge finish2_path
      show ?thesis
        unfolding unfold params2 by auto
    next
      case no_path: False
      show ?thesis
      proof (cases "chi [(0, 1), (1, 2)] 3 \<le> 3")
        case True
        with assms edge no_path
          finish2_path
        show ?thesis
          unfolding unfold params2 by auto
      next
        case False
        with assms edge no_path finish2_edge show ?thesis
          unfolding unfold params2 by auto
      qed
    qed
  qed
qed

lemma generator2:
  assumes "chi [(0, 1)] 2 \<le> 3" and "chi [(0, 1), (0, 2)] 3 \<le> 3"
  shows "Generator chi 2 None None None None DefaultDmaxs =
     Inr \<lparr>gen_c_specs = example_rows2 (chi [(0, 1)] 2) (chi [(0, 1), (0, 2)] 3),
          gen_edges = [[(0, 1)], [(0, 1), (0, 2)]],
          gen_weights = [[1], [2], [1, 1]],
          gen_disc_specs = disc_specs (example_disc2 (chi [(0, 1)] 2)),
          gen_disc_formulae = disc_formulae (example_disc2 (chi [(0, 1)] 2))\<rparr>"
proof -
  have simple: "generate_simple chi (mk_params 2 None None None None)
      (init_store (mk_params 2 None None None None)) =
     Inr [((2, 1), \<lparr>simple_graphs = [Full2], edges = [[(0, 1)]],
                    chis = [chi [(0, 1)] 2], vs = [1], weights = []\<rparr>),
          ((3, 2), \<lparr>simple_graphs = [\<lparr>vcount = 3, edgelist = [(0, 1), (0, 2)]\<rparr>],
                       edges = [[(0, 1), (0, 2)]], chis = [chi [(0, 1), (0, 2)] 3], vs = [2],
                       weights = []\<rparr>)]"
    using assms simple2[of chi] by (simp add: params2 init2)
  show ?thesis
    using finish2_path
    unfolding Generator_after_simple[OF simple, of DefaultDmaxs] params2
    by simp
qed

section \<open>The generator for dmax = 4 and nmax = 2\<close>

lemma params4:
  "mk_params 4 (Some 2) None None None = \<lparr>dmax = 4, nmax = 2, emax = 4, cmax = 2, vmax = 4\<rparr>"
  by (simp add: mk_params_def)

lemma keys4:
  "ns \<lparr>dmax = 4, nmax = 2, emax = 4, cmax = 2, vmax = 4\<rparr> = [2]"
  "esbyn \<lparr>dmax = 4, nmax = 2, emax = 4, cmax = 2, vmax = 4\<rparr> 2 = [1]"
  by code_simp+

lemma init4:
  "init_store \<lparr>dmax = 4, nmax = 2, emax = 4, cmax = 2, vmax = 4\<rparr> = [((2, 1), empty_bucket)]"
  by (simp add: init_store_def bucket_keys_def keys4)

lemma simple4:
  assumes "chi [(0, 1)] 2 \<le> 2"
  shows "generate_simple chi \<lparr>dmax = 4, nmax = 2, emax = 4, cmax = 2, vmax = 4\<rparr>
           [((2, 1), empty_bucket)] =
     Inr [((2, 1), \<lparr>simple_graphs = [Full2], edges = [[(0, 1)]],
                    chis = [chi [(0, 1)] 2], vs = [1], weights = []\<rparr>)]"
  using assms graph_facts(1,2) keys4
  by (simp add: generate_simple_def add_if_new_def empty_bucket_def
      put_def get_edgelist_def Let_def)

lemma finish4:
  "(case generate_weights \<lparr>dmax = 4, nmax = 2, emax = 4, cmax = 2, vmax = 4\<rparr>
       [((2, 1), \<lparr>simple_graphs = [Full2], edges = [[(0, 1)]], chis = [c1], vs = [1],
                  weights = []\<rparr>)] of
      Inl err \<Rightarrow> Inl err
    | Inr st' \<Rightarrow>
        (case CompositeGenerator (c_specs (results st')) DefaultDmaxs of
           Inl err \<Rightarrow> Inl err
         | Inr disc \<Rightarrow>
             Inr \<lparr>gen_c_specs = c_specs (results st'), gen_edges = out_edges (results st'),
                  gen_weights = out_weights (results st'), gen_disc_specs = disc_specs disc,
                  gen_disc_formulae = disc_formulae disc\<rparr>)) =
   Inr (example_generator4 c1)"
  by (code_simp, simp?)

lemma generator4:
  assumes "chi [(0, 1)] 2 \<le> 2"
  shows "Generator chi 4 (Some 2) None None None DefaultDmaxs =
           Inr (example_generator4 (chi [(0, 1)] 2))"
proof -
  have simple: "generate_simple chi (mk_params 4 (Some 2) None None None)
      (init_store (mk_params 4 (Some 2) None None None)) =
     Inr [((2, 1), \<lparr>simple_graphs = [Full2], edges = [[(0, 1)]],
                    chis = [chi [(0, 1)] 2], vs = [1], weights = []\<rparr>)]"
    using simple4[of chi] assms by (simp add: params4 init4)
  show ?thesis
    unfolding Generator_after_simple[OF simple, of DefaultDmaxs] params4
    by (rule finish4)
qed

lemma example4_rows:
  "specs (example_generator4 c) ! 6 =
     \<lparr>col_n = 4, col_e = 1, col_d = 4, col_v = 1, col_k = 0, col_g = - 1, col_w = - 1,
      col_c = c, col_p = 2\<rparr>"
  "specs (example_generator4 c) ! 7 =
     \<lparr>col_n = 4, col_e = 1, col_d = 4, col_v = 1, col_k = 0, col_g = - 1, col_w = - 1,
      col_c = c, col_p = 2\<rparr>"
  "gen_disc_formulae (example_generator4 c) ! 2 = [(2, 1, 0), (2, 3, 0)]"
  "gen_disc_formulae (example_generator4 c) ! 3 = [(2, 2, 0), (2, 2, 0)]"
  "length (gen_c_specs (example_generator4 c)) = 4"
  by (simp_all add: example_generator4_def specs_def)

section \<open>The generator returns\<close>

lemma for_each_total:
  assumes "I s"
    and "\<And>x t. x \<in> set xs \<Longrightarrow> I t \<Longrightarrow> \<exists>t'. body x t = Inr t' \<and> I t'"
  shows "\<exists>s'. for_each body xs s = Inr s' \<and> I s'"
  using assms
proof (induction xs arbitrary: s)
  case Nil
  then show ?case by simp
next
  case (Cons x xs)
  from Cons.prems obtain t where t: "body x s = Inr t" "I t" by (meson list.set_intros(1))
  from Cons.IH[OF t(2)] Cons.prems(2) obtain s' where "for_each body xs t = Inr s'" "I s'"
    by (meson list.set_intros(2))
  with t show ?case by simp
qed

lemma add_if_new_total:
  assumes "ne \<in> set (map fst st)"
  shows "\<exists>st'. add_if_new chi P g ne st = Inr st' \<and> map fst st' = map fst st"
proof -
  from map_of_present[OF assms] obtain b where "map_of st ne = Some b" ..
  then show ?thesis
    by (simp add: add_if_new_def Let_def map_fst_put)
qed

lemma bucket_key_iff:
  "(n, e) \<in> set (bucket_keys P) \<longleftrightarrow> n \<in> set (ns P) \<and> e \<in> set (esbyn P n)"
  by (auto simp: bucket_keys_def)

lemma grow_bucket_total:
  assumes keys: "map fst st = bucket_keys P" and n: "n \<in> set (tl (ns P))"
    and e: "e \<in> set (esbyn P n)"
  shows "\<exists>st'. grow_bucket chi P n e st = Inr st' \<and> map fst st' = bucket_keys P"
proof -
  from tl_ns[OF n] have n_in: "n \<in> set (ns P)" and n1_in: "n - 1 \<in> set (ns P)"
    by (auto simp: ns_def)
  from n_in e have target: "(n, e) \<in> set (bucket_keys P)" by (simp add: bucket_key_iff)
  have add: "\<exists>t'. add_if_new chi P g (n, e) t = Inr t' \<and> map fst t' = bucket_keys P"
    if "map fst t = bucket_keys P" for g t
    using add_if_new_total[of "(n, e)" t chi P g] target that by simp
  have inner: "\<exists>t'. for_each (\<lambda>x. add_if_new chi P (mk x) (n, e)) xs t = Inr t'
                  \<and> map fst t' = bucket_keys P"
    if "map fst t = bucket_keys P" for mk :: "'x \<Rightarrow> graph" and xs t
    using that by (rule for_each_total) (rule add)
  have first: "\<exists>st1. (if e - 1 \<in> set (esbyn P (n - 1)) then
              (case map_of st (n - 1, e - 1) of
                 None \<Rightarrow> Inl KeyError
               | Some b \<Rightarrow>
                   for_each (\<lambda>seed_graph.
                       for_each (\<lambda>v. add_if_new chi P (attach_vertex n seed_graph v) (n, e))
                                [0..<n - 1])
                     (simple_graphs b) st)
            else Inr st) = Inr st1 \<and> map fst st1 = bucket_keys P"
  proof (cases "e - 1 \<in> set (esbyn P (n - 1))")
    case True
    with n1_in keys have "(n - 1, e - 1) \<in> set (map fst st)" by (simp add: bucket_key_iff)
    from map_of_present[OF this] obtain b where b: "map_of st (n - 1, e - 1) = Some b" ..
    have "\<exists>st1. for_each (\<lambda>seed_graph.
                       for_each (\<lambda>v. add_if_new chi P (attach_vertex n seed_graph v) (n, e))
                                [0..<n - 1])
                     (simple_graphs b) st = Inr st1 \<and> map fst st1 = bucket_keys P"
      using keys by (rule for_each_total) (rule inner)
    with True b show ?thesis by simp
  next
    case False
    with keys show ?thesis by simp
  qed
  then obtain st1 where st1: "(if e - 1 \<in> set (esbyn P (n - 1)) then
              (case map_of st (n - 1, e - 1) of
                 None \<Rightarrow> Inl KeyError
               | Some b \<Rightarrow>
                   for_each (\<lambda>seed_graph.
                       for_each (\<lambda>v. add_if_new chi P (attach_vertex n seed_graph v) (n, e))
                                [0..<n - 1])
                     (simple_graphs b) st)
            else Inr st) = Inr st1" and keys1: "map fst st1 = bucket_keys P"
    by blast
  have second: "\<exists>st'. (if e - 1 \<in> set (esbyn P n) then
            (case map_of st1 (n, e - 1) of
               None \<Rightarrow> Inl KeyError
             | Some b \<Rightarrow>
                 for_each (\<lambda>(seed_graph, seed_edges).
                     for_each (\<lambda>new_edge. add_if_new chi P (add_edges [new_edge] seed_graph) (n, e))
                              (edge_filter n seed_edges))
                   (zip (simple_graphs b) (edges b)) st1)
          else Inr st1) = Inr st' \<and> map fst st' = bucket_keys P"
  proof (cases "e - 1 \<in> set (esbyn P n)")
    case True
    with n_in keys1 have "(n, e - 1) \<in> set (map fst st1)" by (simp add: bucket_key_iff)
    from map_of_present[OF this] obtain b where b: "map_of st1 (n, e - 1) = Some b" ..
    have "\<exists>st'. for_each (\<lambda>(seed_graph, seed_edges).
                     for_each (\<lambda>new_edge. add_if_new chi P (add_edges [new_edge] seed_graph) (n, e))
                              (edge_filter n seed_edges))
                   (zip (simple_graphs b) (edges b)) st1 = Inr st' \<and> map fst st' = bucket_keys P"
      using keys1
    proof (rule for_each_total)
      fix z and t :: store assume "map fst t = bucket_keys P"
      then show "\<exists>t'. (case z of (seed_graph, seed_edges) \<Rightarrow>
                     for_each (\<lambda>new_edge. add_if_new chi P (add_edges [new_edge] seed_graph) (n, e))
                              (edge_filter n seed_edges)) t = Inr t' \<and> map fst t' = bucket_keys P"
        by (cases z) (simp add: inner)
    qed
    with True b show ?thesis by simp
  next
    case False
    with keys1 show ?thesis by simp
  qed
  with st1 show ?thesis
    unfolding grow_bucket_def by auto
qed

lemma init_store_keys: "map fst (init_store P) = bucket_keys P"
  by (simp add: init_store_def comp_def)

lemma generate_simple_total:
  assumes "(2, 1) \<in> set (bucket_keys P)"
  shows "\<exists>st. generate_simple chi P (init_store P) = Inr st \<and> map fst st = bucket_keys P"
proof -
  from add_if_new_total[of "(2, 1)" "init_store P" chi P Full2] assms
  obtain st1 where st1: "add_if_new chi P Full2 (2, 1) (init_store P) = Inr st1"
    and keys1: "map fst st1 = bucket_keys P"
    by (auto simp: init_store_keys)
  have "\<exists>st. for_each (\<lambda>n. for_each (\<lambda>e. grow_bucket chi P n e) (esbyn P n)) (tl (ns P)) st1 = Inr st
            \<and> map fst st = bucket_keys P"
    using keys1
  proof (rule for_each_total)
    fix n and t :: store assume n: "n \<in> set (tl (ns P))" and "map fst t = bucket_keys P"
    then show "\<exists>t'. for_each (\<lambda>e. grow_bucket chi P n e) (esbyn P n) t = Inr t'
                  \<and> map fst t' = bucket_keys P"
      by (rule_tac for_each_total) (auto intro: grow_bucket_total)
  qed
  with st1 show ?thesis unfolding generate_simple_def by auto
qed

lemma generate_weights_total:
  assumes keys: "map fst st = bucket_keys P" and edge: "(2, 1) \<in> set (bucket_keys P)"
  shows "\<exists>st'. generate_weights P st = Inr st'"
proof -
  from edge keys have "(2, 1) \<in> set (map fst st)" by simp
  from map_of_present[OF this] obtain b where b: "map_of st (2, 1) = Some b" ..
  define s2 where
    "s2 = put (2, 1) (b\<lparr>weights := weights b @ [map (\<lambda>d. [d]) [1..<dmaxs P (2, 1) + 1]]\<rparr>) st"
  have keys2: "map fst s2 = bucket_keys P" by (simp add: s2_def map_fst_put keys)
  have "\<exists>st'. for_each (\<lambda>n. for_each (\<lambda>e. weigh_bucket P n e) (esbyn P n)) (tl (ns P)) s2 = Inr st'
             \<and> map fst st' = bucket_keys P"
    using keys2
  proof (rule for_each_total)
    fix n and t :: store assume n: "n \<in> set (tl (ns P))" and t: "map fst t = bucket_keys P"
    from t show "\<exists>t'. for_each (\<lambda>e. weigh_bucket P n e) (esbyn P n) t = Inr t'
                  \<and> map fst t' = bucket_keys P"
    proof (rule for_each_total)
      fix e and u :: store assume e: "e \<in> set (esbyn P n)" and u: "map fst u = bucket_keys P"
      from tl_ns[OF n] have "n \<in> set (ns P)" by (auto simp: ns_def)
      with e u have "(n, e) \<in> set (map fst u)" by (simp add: bucket_key_iff)
      from map_of_present[OF this] obtain b' where "map_of u (n, e) = Some b'" ..
      with u show "\<exists>u'. weigh_bucket P n e u = Inr u' \<and> map fst u' = bucket_keys P"
        by (simp add: weigh_bucket_eq map_fst_put)
    qed
  qed
  with b show ?thesis unfolding generate_weights_def s2_def by auto
qed

lemma edge_bucket_iff: "(2, 1) \<in> set (bucket_keys P) \<longleftrightarrow> 2 \<le> nmax P \<and> 1 \<le> emax P"
  by (auto simp: bucket_key_iff ns_def esbyn_def emaxs_def)

text \<open>The constructor of \<open>PrimeGenerator\<close> returns exactly when the bucket \<open>(2, 1)\<close> exists;
  otherwise the first lookup raises \<open>KeyError\<close>.\<close>

lemma PrimeGenerator_returns:
  "(\<exists>st. PrimeGenerator chi P = Inr st) \<longleftrightarrow> 2 \<le> nmax P \<and> 1 \<le> emax P"
proof
  assume "\<exists>st. PrimeGenerator chi P = Inr st"
  then obtain st where "PrimeGenerator chi P = Inr st" ..
  from PrimeGenerator_single_edge_bucket[OF this] obtain b where b: "map_of st (2, 1) = Some b" ..
  from PrimeGenerator_store(1)[OF \<open>PrimeGenerator chi P = Inr st\<close> b]
  show "2 \<le> nmax P \<and> 1 \<le> emax P" by (rule edge_bucket_iff[THEN iffD1])
next
  assume "2 \<le> nmax P \<and> 1 \<le> emax P"
  then have edge: "(2, 1) \<in> set (bucket_keys P)" by (rule edge_bucket_iff[THEN iffD2])
  from generate_simple_total[OF edge] obtain s1 where
    s1: "generate_simple chi P (init_store P) = Inr s1" and keys: "map fst s1 = bucket_keys P"
    by blast
  from generate_weights_total[OF keys edge] obtain st where "generate_weights P s1 = Inr st" ..
  with s1 show "\<exists>st. PrimeGenerator chi P = Inr st"
    by (simp add: PrimeGenerator_def)
qed

section \<open>The index k of the prime rows\<close>

lemma add_row_ks_ok:
  assumes "ks_ok rs"
  shows "ks_ok (add_row n e c v weighting rs)"
  unfolding ks_ok_def
proof (intro allI)
  fix n' d'
  from assms have old: "map col_k (filter (\<lambda>r. col_n r = n' \<and> col_d r = d') (c_specs rs)) =
            [0..<(case ks rs (n', d') of None \<Rightarrow> 0 | Some c \<Rightarrow> c)]"
    unfolding ks_ok_def by blast
  show "map col_k (filter (\<lambda>r. col_n r = n' \<and> col_d r = d')
                     (c_specs (add_row n e c v weighting rs))) =
        [0..<(case ks (add_row n e c v weighting rs) (n', d') of None \<Rightarrow> 0 | Some c \<Rightarrow> c)]"
  proof (cases "n' = n \<and> d' = sum_list weighting")
    case True
    with old show ?thesis by (simp add: add_row_def Let_def)
  next
    case False
    with old show ?thesis by (auto simp: add_row_def Let_def)
  qed
qed

lemma add_graph_ks_ok: "ks_ok rs \<Longrightarrow> ks_ok (add_graph n e z rs)"
proof -
  assume ok: "ks_ok rs"
  obtain edgs wghts c v where z: "z = (edgs, wghts, c, v)" by (cases z) auto
  have "ks_ok (fold (add_row n e c v) wghts rs)"
    using ok by (rule fold_invariant) (rule add_row_ks_ok)
  then show ?thesis by (simp add: z add_graph_def Let_def ks_ok_def)
qed

lemma results_ks_ok: "ks_ok (results st)"
  unfolding results_def
proof (rule fold_invariant)
  show "ks_ok \<lparr>ks = Map.empty, g_next = 0, w_next = 0, c_specs = [], out_edges = [],
               out_weights = []\<rparr>"
    by (simp add: ks_ok_def)
next
  fix ne t assume t: "ks_ok t"
  show "ks_ok (results_bucket st ne t)"
  proof (cases "map_of st ne")
    case None
    with t show ?thesis by (simp add: results_bucket_def)
  next
    case (Some b)
    have "ks_ok (fold (add_graph (fst ne) (snd ne))
               (zip (edges b) (zip (weights b) (zip (chis b) (vs b)))) t)"
      using t by (rule fold_invariant) (rule add_graph_ks_ok)
    with Some show ?thesis by (simp add: results_bucket_def)
  qed
qed

lemma distinct_filter_nth:
  assumes "distinct (map f (filter P xs))" and "i < j" and "j < length xs"
    and "P (xs ! i)" and "P (xs ! j)"
  shows "f (xs ! i) \<noteq> f (xs ! j)"
  using assms
proof (induction xs arbitrary: i j)
  case Nil
  then show ?case by simp
next
  case (Cons x xs)
  from Cons.prems(2) obtain j' where j: "j = Suc j'" by (cases j) auto
  show ?case
  proof (cases i)
    case 0
    with Cons.prems j have "P x" and "xs ! j' \<in> set (filter P xs)" by auto
    with Cons.prems(1) have "f x \<noteq> f (xs ! j')" by auto
    with 0 j show ?thesis by simp
  next
    case (Suc i')
    from Cons.prems(1) have "distinct (map f (filter P xs))" by (simp split: if_splits)
    from Cons.IH[OF this, of i' j'] Cons.prems Suc j show ?thesis by simp
  qed
qed

text \<open>Within the prime table, two rows with the same \<open>n\<close> and \<open>d\<close> have different \<open>k\<close>.\<close>

lemma prime_rows_k_unique:
  assumes "i < length (c_specs (results st))" and "j < length (c_specs (results st))"
    and "i \<noteq> j"
    and "col_n (c_specs (results st) ! i) = col_n (c_specs (results st) ! j)"
    and "col_d (c_specs (results st) ! i) = col_d (c_specs (results st) ! j)"
  shows "col_k (c_specs (results st) ! i) \<noteq> col_k (c_specs (results st) ! j)"
proof -
  define rows where "rows = c_specs (results st)"
  define n where "n = col_n (rows ! i)"
  define d where "d = col_d (rows ! i)"
  define P where "P = (\<lambda>r :: spec_row. col_n r = n \<and> col_d r = d)"
  have "\<forall>n d. map col_k (filter (\<lambda>r. col_n r = n \<and> col_d r = d) rows) =
            [0..<(case ks (results st) (n, d) of None \<Rightarrow> 0 | Some c \<Rightarrow> c)]"
    using results_ks_ok[of st] unfolding ks_ok_def rows_def .
  from this[THEN spec, THEN spec, of n d]
  have "distinct (map col_k (filter P rows))"
    unfolding P_def by (simp only: distinct_upt)
  have Pi: "P (rows ! i)" by (simp add: P_def n_def d_def)
  have Pj: "P (rows ! j)" using assms(4,5) by (simp add: P_def n_def d_def rows_def)
  have len: "i < length rows" "j < length rows" using assms(1,2) by (simp_all add: rows_def)
  from assms(3) consider "i < j" | "j < i" by linarith
  then have "col_k (rows ! i) \<noteq> col_k (rows ! j)"
  proof cases
    case 1
    from distinct_filter_nth[OF \<open>distinct (map col_k (filter P rows))\<close> 1 len(2) Pi Pj]
    show ?thesis .
  next
    case 2
    from distinct_filter_nth[OF \<open>distinct (map col_k (filter P rows))\<close> 2 len(1) Pj Pi]
    show ?thesis by (rule not_sym)
  qed
  then show ?thesis unfolding rows_def .
qed

section \<open>softdrop\<close>

lemma softdrop_subjet:
  "softdrop delta_R pow jet zcut beta R = Inr groomed \<Longrightarrow> size groomed \<le> size jet"
proof (induction delta_R pow jet zcut beta R arbitrary: groomed rule: softdrop.induct)
  case (1 delta_R pow p zcut beta R)
  then show ?case by simp
next
  case (2 delta_R pow p parent1 parent2 zcut beta R)
  show ?case
  proof (cases "pt parent1 + pt parent2 = 0 \<or> (beta \<noteq> 0 \<and> R = 0)")
    case True
    with "2.prems" show ?thesis by (auto split: if_splits)
  next
    case ok: False
    show ?thesis
    proof (cases "min (pt parent1) (pt parent2) / (pt parent1 + pt parent2)
                \<ge> (if beta = 0 then zcut else zcut * pow (delta_R parent1 parent2 / R) beta)")
      case True
      with "2.prems" ok show ?thesis by (auto split: if_splits)
    next
      case below: False
      show ?thesis
      proof (cases "pt parent1 \<ge> pt parent2")
        case True
        with "2.prems" ok below have "softdrop delta_R pow parent1 zcut beta R = Inr groomed"
          by (auto split: if_splits)
        from "2.IH"(1)[OF _ _ below True this] ok show ?thesis by auto
      next
        case False
        with "2.prems" ok below have "softdrop delta_R pow parent2 zcut beta R = Inr groomed"
          by (auto split: if_splits)
        from "2.IH"(2)[OF _ _ below False this] ok show ?thesis by auto
      qed
    qed
  qed
qed

text \<open>What the code does: a jet with parents is returned as it is exactly when the two
  divisions are defined and \<open>z\<close> is at least the threshold.\<close>

lemma softdrop_returns_jet_iff:
  "softdrop delta_R pow (Merged p parent1 parent2) zcut beta R = Inr (Merged p parent1 parent2)
   \<longleftrightarrow> pt parent1 + pt parent2 \<noteq> 0 \<and> (beta = 0 \<or> R \<noteq> 0) \<and>
       (if beta = 0 then zcut else zcut * pow (delta_R parent1 parent2 / R) beta)
         \<le> min (pt parent1) (pt parent2) / (pt parent1 + pt parent2)"
proof
  assume run: "softdrop delta_R pow (Merged p parent1 parent2) zcut beta R
                 = Inr (Merged p parent1 parent2)"
  show "pt parent1 + pt parent2 \<noteq> 0 \<and> (beta = 0 \<or> R \<noteq> 0) \<and>
       (if beta = 0 then zcut else zcut * pow (delta_R parent1 parent2 / R) beta)
         \<le> min (pt parent1) (pt parent2) / (pt parent1 + pt parent2)"
  proof (rule ccontr)
    assume "\<not> ?thesis"
    with run consider "softdrop delta_R pow parent1 zcut beta R = Inr (Merged p parent1 parent2)"
      | "softdrop delta_R pow parent2 zcut beta R = Inr (Merged p parent1 parent2)"
      by (auto split: if_splits)
    then show False
    proof cases
      case 1
      from softdrop_subjet[OF 1] show False by simp
    next
      case 2
      from softdrop_subjet[OF 2] show False by simp
    qed
  qed
next
  assume "pt parent1 + pt parent2 \<noteq> 0 \<and> (beta = 0 \<or> R \<noteq> 0) \<and>
       (if beta = 0 then zcut else zcut * pow (delta_R parent1 parent2 / R) beta)
         \<le> min (pt parent1) (pt parent2) / (pt parent1 + pt parent2)"
  then show "softdrop delta_R pow (Merged p parent1 parent2) zcut beta R
                 = Inr (Merged p parent1 parent2)"
    by auto
qed

section \<open>The final pass of composite generation\<close>

lemma generate_disconnected_collect:
  "generate_disconnected G =
     (case collect_disconnected G of
        Inl err \<Rightarrow> Inl err
      | Inr out \<Rightarrow>
          Inr \<lparr>disc_formulae = np_mask (disc_formulae out) (unique_mask (disc_formulae out) []),
               disc_specs = np_mask (disc_specs out) (unique_mask (disc_formulae out) [])\<rparr>)"
  unfolding generate_disconnected_def collect_disconnected_def
  by (simp add: Let_def split: sum.splits)

lemma unique_mask_nth:
  "unique_mask xs seen = map (\<lambda>i. xs ! i \<notin> set seen \<union> set (take i xs)) [0..<length xs]"
proof (induction xs arbitrary: seen)
  case Nil
  show ?case by simp
next
  case (Cons x xs)
  have upt: "[0..<length (x # xs)] = 0 # map Suc [0..<length xs]"
    by (simp add: upt_conv_Cons map_Suc_upt del: upt_Suc)
  show ?case
    unfolding upt by (auto simp: Cons.IH comp_def)
qed

lemma np_mask_nth:
  assumes "length ys = n"
  shows "np_mask ys (map P [0..<n]) = map (\<lambda>i. ys ! i) (filter P [0..<n])"
proof -
  have "zip ys (map P [0..<n]) = map (\<lambda>i. (ys ! i, P i)) [0..<n]"
    using assms by (intro nth_equalityI) simp_all
  then show ?thesis
    unfolding np_mask_def by (simp add: filter_map comp_def)
qed

lemma np_mask_first_occurrences:
  assumes "length ys = length xs"
  shows "np_mask ys (unique_mask xs []) = map (\<lambda>i. ys ! i) (first_occurrences xs)"
  unfolding first_occurrences_def unique_mask_nth[of xs "[]"]
  using np_mask_nth[OF assms, of "\<lambda>i. xs ! i \<notin> set (take i xs)"] by simp

lemma set_first_occurrences:
  "set (map (\<lambda>i. xs ! i) (first_occurrences xs)) = set xs"
proof
  show "set (map (\<lambda>i. xs ! i) (first_occurrences xs)) \<subseteq> set xs"
    unfolding first_occurrences_def by auto
next
  show "set xs \<subseteq> set (map (\<lambda>i. xs ! i) (first_occurrences xs))"
  proof
    fix x assume "x \<in> set xs"
    define i where "i = (LEAST i. i < length xs \<and> xs ! i = x)"
    from \<open>x \<in> set xs\<close> have ex: "\<exists>i. i < length xs \<and> xs ! i = x" by (simp add: in_set_conv_nth)
    then have i: "i < length xs \<and> xs ! i = x" unfolding i_def by (rule LeastI_ex)
    have "x \<notin> set (take i xs)"
    proof
      assume "x \<in> set (take i xs)"
      then obtain j where j: "j < length (take i xs)" "take i xs ! j = x"
        by (auto simp: in_set_conv_nth)
      then have "j < i" "j < length xs \<and> xs ! j = x" by simp_all
      from Least_le[of "\<lambda>i. i < length xs \<and> xs ! i = x", OF this(2)] \<open>j < i\<close>
      show False unfolding i_def by simp
    qed
    with i have "i \<in> set (first_occurrences xs)" unfolding first_occurrences_def by simp
    with i show "x \<in> set (map (\<lambda>i. xs ! i) (first_occurrences xs))" by force
  qed
qed

lemma rows33:
  "(case PrimeGenerator chi_small (mk_params 3 (Some 3) None None None) of
      Inl err \<Rightarrow> Inl err | Inr st \<Rightarrow> Inr (c_specs (results st))) = Inr example_rows33"
  by code_simp

lemma raw33:
  "(case composite_init example_rows33 (DictDmaxs [(6, 6)]) of
      Inl err \<Rightarrow> Inl err | Inr G \<Rightarrow> collect_disconnected G) = Inr example_raw33"
  by code_simp

lemma composite33: "CompositeGenerator example_rows33 (DictDmaxs [(6, 6)]) = Inr example_disc33"
  by code_simp

lemma first_occurrences33:
  "first_occurrences (disc_formulae example_raw33) = [0, 1, 2, 3, 4, 5, 6, 7, 8, 10, 11, 12]"
  by code_simp

section \<open>The claims\<close>

text \<open>
  Claim C3, as amended. The accepted weightings of the single-edge graph, the bucket
  \<open>(2, 1)\<close>, are the one-entry weightings \<open>[d]\<close> for \<open>1 \<le> d \<le> dmax\<close>, and no others:
  the degree budget bounds them.
\<close>

theorem single_edge_weightings:
  assumes "PrimeGenerator chi P = Inr st"
  shows "\<exists>b. map_of st (2, 1) = Some b \<and>
             weights b = [map (\<lambda>d. [d]) [1..<dmax P + 1]] \<and>
             (\<forall>w. w \<in> set (concat (weights b)) \<longleftrightarrow> (\<exists>d. w = [d] \<and> 1 \<le> d \<and> d \<le> dmax P))"
proof -
  from PrimeGenerator_single_edge_bucket[OF assms] obtain b where b: "map_of st (2, 1) = Some b" ..
  from PrimeGenerator_store(9)[OF assms b]
  have w: "weights b = [map (\<lambda>d. [d]) [1..<dmax P + 1]]" by simp
  have "w \<in> set (concat (weights b)) \<longleftrightarrow> (\<exists>d. w = [d] \<and> 1 \<le> d \<and> d \<le> dmax P)" for w
    unfolding w by auto
  with b w show ?thesis by blast
qed

theorem single_edge_weightings_witness:
  "\<exists>st. PrimeGenerator chi_two (mk_params 2 None None None None) = Inr st \<and>
     (\<exists>b. map_of st (2, 1) = Some b \<and> weights b = [[[1], [2]]])"
proof -
  obtain st where run: "PrimeGenerator chi_two (mk_params 2 None None None None) = Inr st"
    using store2 by (rule that)
  from single_edge_weightings[OF run] obtain b where
    b: "map_of st (2, 1) = Some b"
    and w: "weights b = [map (\<lambda>d. [d]) [1..<dmax (mk_params 2 None None None None) + 1]]"
    by (elim exE conjE) (rule that)
  have v: "[map (\<lambda>d. [d]) [1..<dmax (mk_params 2 None None None None) + 1]] = [[[1::nat], [2]]]"
    by (simp add: mk_params_def upt_rec)
  from w have w': "weights b = [[[1], [2]]]" by (simp only: v)
  show ?thesis
    by (rule exI, rule conjI, rule run, rule exI, rule conjI, rule b, rule w')
qed

theorem single_edge_weighting_three_counterexample:
  "\<not> (\<exists>chi st b. PrimeGenerator chi (mk_params 2 None None None None) = Inr st \<and>
         map_of st (2, 1) = Some b \<and> [3] \<in> set (concat (weights b)))"
proof
  assume "\<exists>chi st b. PrimeGenerator chi (mk_params 2 None None None None) = Inr st \<and>
         map_of st (2, 1) = Some b \<and> [3] \<in> set (concat (weights b))"
  then obtain chi st b where run: "PrimeGenerator chi (mk_params 2 None None None None) = Inr st"
    and b: "map_of st (2, 1) = Some b" and three: "[3] \<in> set (concat (weights b))"
    by blast
  from PrimeGenerator_store(9)[OF run b]
  have "weights b = [map (\<lambda>d. [d]) [1..<dmax (mk_params 2 None None None None) + 1]]" by simp
  with three show False by (auto simp: mk_params_def)
qed

text \<open>
  Claim C5. A candidate that is isomorphic to a graph of its bucket, or whose complexity
  exceeds \<open>cmax\<close>, or whose maximal degree exceeds \<open>vmax\<close>, leaves the store as it was.
  In every bucket of the finished generator no two graphs are isomorphic, and every graph
  is within \<open>cmax\<close> and \<open>vmax\<close>.
\<close>

theorem accepted_simple_graphs:
  assumes "PrimeGenerator chi P = Inr st" and "map_of st ne = Some b"
  shows "(\<forall>st0 b0 g. map_of st0 ne = Some b0 \<and>
            (list_ex (isomorphic g) (simple_graphs b0) \<or> cmax P < chi (get_edgelist g) (fst ne)
             \<or> vmax P < maxdegree g) \<longrightarrow> add_if_new chi P g ne st0 = Inr st0) \<and>
         (\<forall>i<length (simple_graphs b). \<forall>j<length (simple_graphs b).
            i \<noteq> j \<longrightarrow> \<not> isomorphic (simple_graphs b ! i) (simple_graphs b ! j)) \<and>
         (\<forall>g\<in>set (simple_graphs b). chi (get_edgelist g) (fst ne) \<le> cmax P \<and> maxdegree g \<le> vmax P)"
proof (intro conjI)
  show "\<forall>st0 b0 g. map_of st0 ne = Some b0 \<and>
            (list_ex (isomorphic g) (simple_graphs b0) \<or> cmax P < chi (get_edgelist g) (fst ne)
             \<or> vmax P < maxdegree g) \<longrightarrow> add_if_new chi P g ne st0 = Inr st0"
    by (auto simp: add_if_new_def Let_def)
next
  note sorted = PrimeGenerator_store(2)[OF assms]
  show "\<forall>i<length (simple_graphs b). \<forall>j<length (simple_graphs b).
            i \<noteq> j \<longrightarrow> \<not> isomorphic (simple_graphs b ! i) (simple_graphs b ! j)"
  proof (intro allI impI)
    fix i j assume i: "i < length (simple_graphs b)" and j: "j < length (simple_graphs b)" and "i \<noteq> j"
    then consider "i < j" | "j < i" by linarith
    then show "\<not> isomorphic (simple_graphs b ! i) (simple_graphs b ! j)"
    proof cases
      case 1
      with sorted j have "\<not> isomorphic (simple_graphs b ! j) (simple_graphs b ! i)"
        by (simp add: sorted_wrt_iff_nth_less)
      then show ?thesis by (blast dest: isomorphic_sym)
    next
      case 2
      with sorted i show ?thesis by (simp add: sorted_wrt_iff_nth_less)
    qed
  qed
next
  show "\<forall>g\<in>set (simple_graphs b). chi (get_edgelist g) (fst ne) \<le> cmax P \<and> maxdegree g \<le> vmax P"
    by (rule PrimeGenerator_store(3)[OF assms])
qed

theorem accepted_simple_graphs_witness:
  "\<exists>st b. PrimeGenerator chi_two (mk_params 3 None None None None) = Inr st \<and>
     map_of st (4, 3) = Some b \<and>
     simple_graphs b = [\<lparr>vcount = 4, edgelist = [(0, 1), (0, 2), (0, 3)]\<rparr>,
                        \<lparr>vcount = 4, edgelist = [(0, 1), (0, 2), (1, 3)]\<rparr>] \<and>
     \<not> isomorphic (simple_graphs b ! 0) (simple_graphs b ! 1) \<and>
     \<not> isomorphic (simple_graphs b ! 1) (simple_graphs b ! 0)"
proof -
  define b where "b = \<lparr>simple_graphs = [\<lparr>vcount = 4, edgelist = [(0, 1), (0, 2), (0, 3)]\<rparr>,
                                     \<lparr>vcount = 4, edgelist = [(0, 1), (0, 2), (1, 3)]\<rparr>],
                    edges = [[(0, 1), (0, 2), (0, 3)], [(0, 1), (0, 2), (1, 3)]],
                    chis = [2, 2], vs = [3, 2],
                    weights = [[[1, 1, 1]], [[1, 1, 1]]]\<rparr>"
  obtain st where run: "PrimeGenerator chi_two (mk_params 3 None None None None) = Inr st"
    and look: "map_of st (4, 3) = Some b"
    using store3 by (rule that) (simp add: b_def example_store3_def)
  have graphs: "simple_graphs b = [\<lparr>vcount = 4, edgelist = [(0, 1), (0, 2), (0, 3)]\<rparr>,
                        \<lparr>vcount = 4, edgelist = [(0, 1), (0, 2), (1, 3)]\<rparr>]"
    by (simp add: b_def)
  from accepted_simple_graphs[OF run look]
  have pairs: "\<forall>i<length (simple_graphs b). \<forall>j<length (simple_graphs b).
            i \<noteq> j \<longrightarrow> \<not> isomorphic (simple_graphs b ! i) (simple_graphs b ! j)"
    by (elim conjE)
  have len: "length (simple_graphs b) = 2" by (simp add: graphs)
  from pairs len have "\<not> isomorphic (simple_graphs b ! 0) (simple_graphs b ! 1)"
    and "\<not> isomorphic (simple_graphs b ! 1) (simple_graphs b ! 0)"
    by simp_all
  with run look graphs show ?thesis by blast
qed

text \<open>
  Claim C6. In the finished generator every accepted graph has its list of weightings, and
  no two weightings of that list are isomorphic under the edge-coloured isomorphism test
  of the graph with itself. A candidate partition that is isomorphic to a weighting
  accepted before it is not added.
\<close>

theorem accepted_weightings_pairwise_non_isomorphic:
  assumes run: "PrimeGenerator chi P = Inr st" and look: "map_of st ne = Some b"
    and i: "i < length (simple_graphs b)"
  shows "i < length (weights b) \<and>
         (\<forall>j<length (weights b ! i). \<forall>k<length (weights b ! i). j \<noteq> k \<longrightarrow>
            \<not> isomorphic_vf2 (simple_graphs b ! i) (weights b ! i ! j) (weights b ! i ! k)) \<and>
         (\<forall>part weightings.
            list_ex (\<lambda>weighting. isomorphic_vf2 (simple_graphs b ! i) weighting part) weightings \<longrightarrow>
            weight_step P (simple_graphs b ! i) part weightings = weightings)"
proof -
  let ?g = "simple_graphs b ! i"
  note w = PrimeGenerator_store(9)[OF run look]
  have len: "i < length (weights b)"
    using w i PrimeGenerator_store(5)[OF run look] by (auto split: if_splits)
  have sorted: "sorted_wrt (\<lambda>w1 w2. \<not> isomorphic_vf2 ?g w1 w2) (weights b ! i)"
  proof (cases "ne = (2, 1)")
    case False
    with w i have "weights b ! i = weightings_for P ?g ne" by simp
    then show ?thesis by (simp add: weightings_for_sorted)
  next
    case True
    with PrimeGenerator_store(5)[OF run look] i have i0: "i = 0" by simp
    from True w i0 have wi: "weights b ! i = map (\<lambda>d. [d]) [1..<dmax P + 1]" by simp
    from PrimeGenerator_store(4)[OF run look] i True have edge: "length (edgelist ?g) = 1"
      by (metis nth_mem snd_conv)
    have noniso: "\<not> isomorphic_vf2 ?g [d1] [d2]" if "d1 \<noteq> d2" for d1 d2 :: nat
    proof
      assume "isomorphic_vf2 ?g [d1] [d2]"
      then have "mset [d1] = mset [d2]"
        by (rule isomorphic_vf2_colors) (simp_all add: edge)
      with that show False by simp
    qed
    have "sorted_wrt (\<lambda>x y. \<not> isomorphic_vf2 ?g [x] [y]) [1..<dmax P + 1]"
      by (rule sorted_wrt_mono_rel[OF _ sorted_wrt_upt]) (simp add: noniso)
    then show ?thesis
      unfolding wi by (simp only: sorted_wrt_map)
  qed
  have pairs: "\<forall>j<length (weights b ! i). \<forall>k<length (weights b ! i). j \<noteq> k \<longrightarrow>
            \<not> isomorphic_vf2 ?g (weights b ! i ! j) (weights b ! i ! k)"
  proof (intro allI impI)
    fix j k assume j: "j < length (weights b ! i)" and k: "k < length (weights b ! i)" and "j \<noteq> k"
    then consider "j < k" | "k < j" by linarith
    then show "\<not> isomorphic_vf2 ?g (weights b ! i ! j) (weights b ! i ! k)"
    proof cases
      case 1
      with sorted k show ?thesis by (simp add: sorted_wrt_iff_nth_less)
    next
      case 2
      with sorted j have "\<not> isomorphic_vf2 ?g (weights b ! i ! k) (weights b ! i ! j)"
        by (simp add: sorted_wrt_iff_nth_less)
      then show ?thesis by (blast dest: isomorphic_vf2_sym)
    qed
  qed
  have reject: "\<forall>part weightings.
            list_ex (\<lambda>weighting. isomorphic_vf2 ?g weighting part) weightings \<longrightarrow>
            weight_step P ?g part weightings = weightings"
    by (simp add: weight_step_def)
  from len pairs reject show ?thesis by (intro conjI)
qed

theorem accepted_weightings_pairwise_non_isomorphic_witness:
  "\<exists>st b. PrimeGenerator chi_two (mk_params 3 None None None None) = Inr st \<and>
     map_of st (3, 2) = Some b \<and>
     simple_graphs b = [\<lparr>vcount = 3, edgelist = [(0, 1), (0, 2)]\<rparr>] \<and>
     weights b ! 0 = [[1, 1], [1, 2]] \<and>
     \<not> isomorphic_vf2 (simple_graphs b ! 0) [1, 1] [1, 2] \<and>
     \<not> isomorphic_vf2 (simple_graphs b ! 0) [1, 2] [1, 1]"
proof -
  define b where "b = \<lparr>simple_graphs = [\<lparr>vcount = 3, edgelist = [(0, 1), (0, 2)]\<rparr>],
                    edges = [[(0, 1), (0, 2)]], chis = [2], vs = [2],
                    weights = [[[1, 1], [1, 2]]]\<rparr>"
  obtain st where run: "PrimeGenerator chi_two (mk_params 3 None None None None) = Inr st"
    and look: "map_of st (3, 2) = Some b"
    using store3 by (rule that) (simp add: b_def example_store3_def)
  have graphs: "simple_graphs b = [\<lparr>vcount = 3, edgelist = [(0, 1), (0, 2)]\<rparr>]"
    and ws: "weights b ! 0 = [[1, 1], [1, 2]]"
    by (simp_all add: b_def)
  have i: "0 < length (simple_graphs b)" by (simp add: graphs)
  from accepted_weightings_pairwise_non_isomorphic[OF run look i]
  have pairs: "\<forall>j<length (weights b ! 0). \<forall>k<length (weights b ! 0). j \<noteq> k \<longrightarrow>
            \<not> isomorphic_vf2 (simple_graphs b ! 0) (weights b ! 0 ! j) (weights b ! 0 ! k)"
    by (elim conjE)
  from pairs[rule_format, of 0 1] pairs[rule_format, of 1 0]
  have "\<not> isomorphic_vf2 (simple_graphs b ! 0) [1, 1] [1, 2]"
    and "\<not> isomorphic_vf2 (simple_graphs b ! 0) [1, 2] [1, 1]"
    by (simp_all add: ws)
  with run look graphs ws show ?thesis by blast
qed

text \<open>
  Claim C9. For a graph of a bucket other than \<open>(2, 1)\<close> and a candidate partition of the
  weighting search: when \<open>vmax \<ge> dmax\<close> the candidate is accepted or is isomorphic to an
  accepted weighting, so the only test applied is the isomorphism test; in general a candidate
  that is neither accepted nor isomorphic to an accepted weighting has \<open>vmax < dmax\<close> and a
  maximal weighted degree above \<open>vmax\<close>, and such a candidate is never accepted.
\<close>

theorem valency_test_only_when_vmax_below_dmax:
  assumes run: "PrimeGenerator chi P = Inr st" and look: "map_of st ne = Some b"
    and ne: "ne \<noteq> (2, 1)" and i: "i < length (simple_graphs b)"
    and d: "d \<in> set [snd ne..<dmaxs P ne + 1]"
    and part: "part \<in> set (int_partition_ordered d (snd ne))"
  shows "(dmax P \<le> vmax P \<longrightarrow>
            part \<in> set (weights b ! i) \<or>
            (\<exists>w\<in>set (weights b ! i). isomorphic_vf2 (simple_graphs b ! i) w part)) \<and>
         (part \<in> set (weights b ! i) \<or>
          (\<exists>w\<in>set (weights b ! i). isomorphic_vf2 (simple_graphs b ! i) w part) \<or>
          (vmax P < dmax P \<and> vmax P < max_strength (simple_graphs b ! i) part)) \<and>
         (vmax P < dmax P \<and> vmax P < max_strength (simple_graphs b ! i) part \<longrightarrow>
            part \<notin> set (weights b ! i)) \<and>
         (\<forall>weightings. dmax P \<le> vmax P \<longrightarrow>
            weight_step P (simple_graphs b ! i) part weightings =
              (if list_ex (\<lambda>weighting. isomorphic_vf2 (simple_graphs b ! i) weighting part) weightings
               then weightings else weightings @ [part]))"
proof -
  let ?g = "simple_graphs b ! i"
  from PrimeGenerator_store(9)[OF run look] ne i
  have wi: "weights b ! i = weightings_for P ?g ne" by simp
  note cov = weightings_for_covers[OF d part, of ?g]
  note val = weightings_for_within_valency[of P ?g ne]
  have 1: "dmax P \<le> vmax P \<longrightarrow>
            part \<in> set (weights b ! i) \<or>
            (\<exists>w\<in>set (weights b ! i). isomorphic_vf2 ?g w part)"
    using cov unfolding wi by auto
  have 2: "part \<in> set (weights b ! i) \<or>
          (\<exists>w\<in>set (weights b ! i). isomorphic_vf2 ?g w part) \<or>
          (vmax P < dmax P \<and> vmax P < max_strength ?g part)"
    using cov unfolding wi .
  have 3: "vmax P < dmax P \<and> vmax P < max_strength ?g part \<longrightarrow> part \<notin> set (weights b ! i)"
    using val unfolding wi by blast
  have 4: "\<forall>weightings. dmax P \<le> vmax P \<longrightarrow>
            weight_step P ?g part weightings =
              (if list_ex (\<lambda>weighting. isomorphic_vf2 ?g weighting part) weightings
               then weightings else weightings @ [part])"
    by (simp add: weight_step_def)
  from 1 2 3 4 show ?thesis by (intro conjI)
qed

theorem valency_test_only_when_vmax_below_dmax_witness:
  "\<exists>st b. PrimeGenerator chi_two (mk_params 3 None None None None) = Inr st \<and>
     map_of st (3, 2) = Some b \<and>
     weights b ! 0 = [[1, 1], [1, 2]] \<and>
     [2, 1] \<in> set (int_partition_ordered 3 2) \<and>
     (\<exists>w\<in>set (weights b ! 0). isomorphic_vf2 (simple_graphs b ! 0) w [2, 1])"
proof -
  define b where "b = \<lparr>simple_graphs = [\<lparr>vcount = 3, edgelist = [(0, 1), (0, 2)]\<rparr>],
                    edges = [[(0, 1), (0, 2)]], chis = [2], vs = [2],
                    weights = [[[1, 1], [1, 2]]]\<rparr>"
  obtain st where run: "PrimeGenerator chi_two (mk_params 3 None None None None) = Inr st"
    and look: "map_of st (3, 2) = Some b"
    using store3 by (rule that) (simp add: b_def example_store3_def)
  have ws: "weights b ! 0 = [[1, 1], [1, 2]]" by (simp add: b_def)
  have ne: "((3, 2) :: nat \<times> nat) \<noteq> (2, 1)" by simp
  have i: "0 < length (simple_graphs b)" by (simp add: b_def)
  have d: "3 \<in> set [snd ((3, 2) :: nat \<times> nat)..<dmaxs (mk_params 3 None None None None) (3, 2) + 1]"
    by (simp add: dmaxs_def mk_params_def)
  have part: "[2, 1] \<in> set (int_partition_ordered 3 (snd ((3, 2) :: nat \<times> nat)))"
    by code_simp
  have budgets: "dmax (mk_params 3 None None None None) \<le> vmax (mk_params 3 None None None None)"
    by (simp add: mk_params_def)
  from valency_test_only_when_vmax_below_dmax[OF run look ne i d part] budgets
  have "[2, 1] \<in> set (weights b ! 0) \<or>
        (\<exists>w\<in>set (weights b ! 0). isomorphic_vf2 (simple_graphs b ! 0) w [2, 1])"
    by (elim conjE) (erule mp)
  moreover have "[2, 1] \<notin> set (weights b ! 0)" by (simp add: ws)
  ultimately have "\<exists>w\<in>set (weights b ! 0). isomorphic_vf2 (simple_graphs b ! 0) w [2, 1]"
    by (elim disjE) simp_all
  moreover from part have "[2, 1] \<in> set (int_partition_ordered 3 2)" by simp
  ultimately show ?thesis using run look ws by blast
qed

text \<open>
  Claim C7. For every row of the prime spec table, the \<open>w\<close> column indexes the weight table,
  the \<open>d\<close> column is the sum of that weighting, and \<open>d \<ge> e\<close>: the weighting has exactly
  \<open>e\<close> entries, each at least 1.
\<close>

theorem prime_row_degree:
  assumes "PrimeGenerator chi P = Inr st" and "r \<in> set (c_specs (results st))"
  shows "0 \<le> col_w r \<and> nat (col_w r) < length (out_weights (results st)) \<and>
         col_d r = sum_list (out_weights (results st) ! nat (col_w r)) \<and>
         col_e r \<le> col_d r \<and>
         length (out_weights (results st) ! nat (col_w r)) = col_e r \<and>
         (\<forall>x\<in>set (out_weights (results st) ! nat (col_w r)). 1 \<le> x)"
proof -
  from results_ok[OF assms(1)] assms(2)
  have ok: "0 \<le> col_w r" "nat (col_w r) < length (out_weights (results st))"
    "col_d r = sum_list (out_weights (results st) ! nat (col_w r))"
    "length (out_weights (results st) ! nat (col_w r)) = col_e r"
    "\<forall>x\<in>set (out_weights (results st) ! nat (col_w r)). 1 \<le> x"
    unfolding rows_ok_def by blast+
  from length_le_sum_list[OF ok(5)] ok(3,4) have "col_e r \<le> col_d r" by simp
  with ok show ?thesis by (intro conjI)
qed

theorem prime_row_degree_witness:
  "\<exists>st. PrimeGenerator chi_two (mk_params 2 None None None None) = Inr st \<and>
     c_specs (results st) = example_rows2 2 2 \<and>
     out_weights (results st) = [[1], [2], [1, 1]] \<and>
     (2::nat) = sum_list (out_weights (results st) ! nat 2) \<and> (2::nat) \<le> 2"
proof -
  define r where "r = \<lparr>col_n = 3, col_e = 2, col_d = 2, col_v = 2, col_k = 0, col_g = 1, col_w = 2,
                        col_c = 2, col_p = 1\<rparr>"
  obtain st where run: "PrimeGenerator chi_two (mk_params 2 None None None None) = Inr st"
    and rows: "c_specs (results st) = example_rows2 2 2"
    and ws: "out_weights (results st) = [[1], [2], [1, 1]]"
    using store2 results2(1,2) by (rule that)
  have "r \<in> set (c_specs (results st))" by (simp add: rows example_rows2_def r_def)
  note row = prime_row_degree[OF run this]
  from row have "col_d r = sum_list (out_weights (results st) ! nat (col_w r))"
    by (elim conjE)
  moreover from row have "col_e r \<le> col_d r"
    by (elim conjE)
  ultimately have "(2::nat) = sum_list (out_weights (results st) ! nat 2)" and "(2::nat) \<le> 2"
    by (simp_all add: r_def)
  with run rows ws show ?thesis by blast
qed
lemma composite2: "CompositeGenerator (example_rows2 2 2) DefaultDmaxs = Inr (example_disc2 2)"
  by code_simp

text \<open>
  Claim C8. The final pass keeps a row of the composite table exactly when its formula
  does not occur at an earlier row: the first occurrence wins, for the formulae and for
  the rows alike, and every formula the loops built is retained. The formulae of the
  retained rows are pairwise distinct; there is one formula per row, and every formula is
  sorted.
\<close>

theorem composite_formulae_distinct:
  assumes "CompositeGenerator rows arg = Inr res"
  shows "distinct (disc_formulae res) \<and>
         length (disc_formulae res) = length (disc_specs res) \<and>
         (\<forall>f\<in>set (disc_formulae res). sorted f) \<and>
         (\<exists>G out. composite_init rows arg = Inr G \<and> collect_disconnected G = Inr out \<and>
            length (disc_specs out) = length (disc_formulae out) \<and>
            disc_formulae res
              = map (\<lambda>i. disc_formulae out ! i) (first_occurrences (disc_formulae out)) \<and>
            disc_specs res
              = map (\<lambda>i. disc_specs out ! i) (first_occurrences (disc_formulae out)) \<and>
            set (disc_formulae res) = set (disc_formulae out))"
proof -
  from assms obtain G where init: "composite_init rows arg = Inr G"
    and gen: "generate_disconnected G = Inr res"
    unfolding CompositeGenerator_def by (cases "composite_init rows arg") simp_all
  from gen obtain out where loop: "collect_disconnected G = Inr out"
    and res: "res = \<lparr>disc_formulae = np_mask (disc_formulae out) (unique_mask (disc_formulae out) []),
                     disc_specs = np_mask (disc_specs out) (unique_mask (disc_formulae out) [])\<rparr>"
    unfolding generate_disconnected_collect by (cases "collect_disconnected G") simp_all
  have "disc_ok \<lparr>disc_formulae = [], disc_specs = []\<rparr>" by (simp add: disc_ok_def)
  with loop[unfolded collect_disconnected_def] have "disc_ok out"
    by (rule for_each_invariant) (rule n_step_ok)
  then have len: "length (disc_specs out) = length (disc_formulae out)" by (simp add: disc_ok_def)
  have f: "disc_formulae res
             = map (\<lambda>i. disc_formulae out ! i) (first_occurrences (disc_formulae out))"
    unfolding res by (simp add: np_mask_first_occurrences)
  have s: "disc_specs res = map (\<lambda>i. disc_specs out ! i) (first_occurrences (disc_formulae out))"
    unfolding res by (simp add: np_mask_first_occurrences[OF len])
  have e: "set (disc_formulae res) = set (disc_formulae out)"
    unfolding f by (rule set_first_occurrences)
  from generate_disconnected_ok[OF gen]
  have ok: "distinct (disc_formulae res)" "length (disc_formulae res) = length (disc_specs res)"
    "\<forall>f\<in>set (disc_formulae res). sorted f"
    unfolding disc_ok_def by blast+
  from init loop len f s e have "\<exists>G out. composite_init rows arg = Inr G \<and>
            collect_disconnected G = Inr out \<and>
            length (disc_specs out) = length (disc_formulae out) \<and>
            disc_formulae res
              = map (\<lambda>i. disc_formulae out ! i) (first_occurrences (disc_formulae out)) \<and>
            disc_specs res
              = map (\<lambda>i. disc_specs out ! i) (first_occurrences (disc_formulae out)) \<and>
            set (disc_formulae res) = set (disc_formulae out)"
    by blast
  with ok show ?thesis by blast
qed

theorem composite_formulae_distinct_witness:
  "(\<exists>st. PrimeGenerator chi_small (mk_params 3 (Some 3) None None None) = Inr st \<and>
         c_specs (results st) = example_rows33) \<and>
   CompositeGenerator example_rows33 (DictDmaxs [(6, 6)]) = Inr example_disc33 \<and>
   (\<exists>G. composite_init example_rows33 (DictDmaxs [(6, 6)]) = Inr G \<and>
        collect_disconnected G = Inr example_raw33) \<and>
   length (disc_formulae example_raw33) = 13 \<and>
   disc_formulae example_raw33 ! 8 = disc_formulae example_raw33 ! 9 \<and>
   first_occurrences (disc_formulae example_raw33) = [0, 1, 2, 3, 4, 5, 6, 7, 8, 10, 11, 12] \<and>
   disc_formulae example_disc33
     = map (\<lambda>i. disc_formulae example_raw33 ! i) [0, 1, 2, 3, 4, 5, 6, 7, 8, 10, 11, 12] \<and>
   disc_specs example_disc33
     = map (\<lambda>i. disc_specs example_raw33 ! i) [0, 1, 2, 3, 4, 5, 6, 7, 8, 10, 11, 12] \<and>
   col_k (disc_specs example_raw33 ! 8) = 1 \<and> col_k (disc_specs example_raw33 ! 9) = 2 \<and>
   distinct (disc_formulae example_disc33) \<and>
   length (disc_formulae example_disc33) = 12 \<and> length (disc_specs example_disc33) = 12"
proof -
  have prime: "\<exists>st. PrimeGenerator chi_small (mk_params 3 (Some 3) None None None) = Inr st \<and>
         c_specs (results st) = example_rows33"
    using rows33 by (cases "PrimeGenerator chi_small (mk_params 3 (Some 3) None None None)") simp_all
  from raw33 obtain G33 where init33: "composite_init example_rows33 (DictDmaxs [(6, 6)]) = Inr G33"
    and loop33: "collect_disconnected G33 = Inr example_raw33"
    by (cases "composite_init example_rows33 (DictDmaxs [(6, 6)])") simp_all
  from composite_formulae_distinct[OF composite33] obtain G out where
    d: "distinct (disc_formulae example_disc33)"
    and init: "composite_init example_rows33 (DictDmaxs [(6, 6)]) = Inr G"
    and loop: "collect_disconnected G = Inr out"
    and f: "disc_formulae example_disc33
              = map (\<lambda>i. disc_formulae out ! i) (first_occurrences (disc_formulae out))"
    and s: "disc_specs example_disc33
              = map (\<lambda>i. disc_specs out ! i) (first_occurrences (disc_formulae out))"
    by (elim exE conjE) (rule that)
  from init init33 have "G = G33" by simp
  with loop loop33 have out: "out = example_raw33" by simp
  have raw: "length (disc_formulae example_raw33) = 13"
    "disc_formulae example_raw33 ! 8 = disc_formulae example_raw33 ! 9"
    "col_k (disc_specs example_raw33 ! 8) = 1" "col_k (disc_specs example_raw33 ! 9) = 2"
    by (simp_all add: example_raw33_def)
  have len: "length (disc_formulae example_disc33) = 12" "length (disc_specs example_disc33) = 12"
    by (simp_all add: example_disc33_def)
  from init33 loop33 have ex: "\<exists>G. composite_init example_rows33 (DictDmaxs [(6, 6)]) = Inr G \<and>
        collect_disconnected G = Inr example_raw33" by blast
  note f' = f[unfolded out first_occurrences33] and s' = s[unfolded out first_occurrences33]
  show ?thesis
    by (intro conjI prime composite33 ex raw first_occurrences33 f' s' d len)
qed

text \<open>
  Claim C10. Every row of the composite table has at least four vertices and a degree
  \<open>d\<close> with \<open>2 * d \<ge> n\<close>; it has at least two factors.
\<close>

theorem composite_row_bounds:
  assumes "CompositeGenerator rows arg = Inr res" and "r \<in> set (disc_specs res)"
  shows "4 \<le> col_n r \<and> col_n r \<le> 2 * col_d r \<and> 2 \<le> col_p r"
proof -
  from assms(1) obtain G where "generate_disconnected G = Inr res"
    unfolding CompositeGenerator_def by (cases "composite_init rows arg") simp_all
  from generate_disconnected_ok[OF this] assms(2) show ?thesis
    unfolding disc_ok_def by blast
qed

theorem composite_row_bounds_witness:
  "CompositeGenerator (example_rows2 2 2) DefaultDmaxs = Inr (example_disc2 2) \<and>
   hd (disc_specs (example_disc2 2)) \<in> set (disc_specs (example_disc2 2)) \<and>
   4 \<le> col_n (hd (disc_specs (example_disc2 2))) \<and>
   col_n (hd (disc_specs (example_disc2 2))) \<le> 2 * col_d (hd (disc_specs (example_disc2 2))) \<and>
   2 \<le> col_p (hd (disc_specs (example_disc2 2)))"
proof -
  have r: "hd (disc_specs (example_disc2 2)) \<in> set (disc_specs (example_disc2 2))"
    by (simp add: example_disc2_def)
  from composite2 r composite_row_bounds[OF composite2 r] show ?thesis by simp
qed

text \<open>
  Claim C1, as amended. For \<open>dmax = 2\<close> and the other budgets at their defaults, when the
  complexities of the single edge and of the path on three vertices are within
  \<open>cmax = 3\<close>, the prime table has three rows, two for the single edge (\<open>d = 1\<close> and
  \<open>d = 2\<close>) and one for the path \<open>(n = 3, e = 2, d = 2)\<close>, and the composite table has one
  row, two disjoint single edges \<open>(n = 4, d = 2)\<close>.
\<close>

theorem generator_dmax2:
  assumes "chi [(0, 1)] 2 \<le> 3" and "chi [(0, 1), (0, 2)] 3 \<le> 3"
  shows "Generator chi 2 None None None None DefaultDmaxs =
     Inr \<lparr>gen_c_specs =
            [\<lparr>col_n = 2, col_e = 1, col_d = 1, col_v = 1, col_k = 0, col_g = 0, col_w = 0,
              col_c = chi [(0, 1)] 2, col_p = 1\<rparr>,
             \<lparr>col_n = 2, col_e = 1, col_d = 2, col_v = 1, col_k = 0, col_g = 0, col_w = 1,
              col_c = chi [(0, 1)] 2, col_p = 1\<rparr>,
             \<lparr>col_n = 3, col_e = 2, col_d = 2, col_v = 2, col_k = 0, col_g = 1, col_w = 2,
              col_c = chi [(0, 1), (0, 2)] 3, col_p = 1\<rparr>],
          gen_edges = [[(0, 1)], [(0, 1), (0, 2)]],
          gen_weights = [[1], [2], [1, 1]],
          gen_disc_specs =
            [\<lparr>col_n = 4, col_e = 1, col_d = 2, col_v = 1, col_k = 0, col_g = - 1, col_w = - 1,
              col_c = chi [(0, 1)] 2, col_p = 2\<rparr>],
          gen_disc_formulae = [[(2, 1, 0), (2, 1, 0)]]\<rparr>"
  using generator2[of chi, OF assms] by (simp add: example_rows2_def example_disc2_def)

theorem generator_dmax2_witness:
  "chi_two [(0, 1)] 2 \<le> 3 \<and> chi_two [(0, 1), (0, 2)] 3 \<le> 3 \<and>
   Generator chi_two 2 None None None None DefaultDmaxs =
     Inr \<lparr>gen_c_specs =
            [\<lparr>col_n = 2, col_e = 1, col_d = 1, col_v = 1, col_k = 0, col_g = 0, col_w = 0,
              col_c = 2, col_p = 1\<rparr>,
             \<lparr>col_n = 2, col_e = 1, col_d = 2, col_v = 1, col_k = 0, col_g = 0, col_w = 1,
              col_c = 2, col_p = 1\<rparr>,
             \<lparr>col_n = 3, col_e = 2, col_d = 2, col_v = 2, col_k = 0, col_g = 1, col_w = 2,
              col_c = 2, col_p = 1\<rparr>],
          gen_edges = [[(0, 1)], [(0, 1), (0, 2)]],
          gen_weights = [[1], [2], [1, 1]],
          gen_disc_specs =
            [\<lparr>col_n = 4, col_e = 1, col_d = 2, col_v = 1, col_k = 0, col_g = - 1, col_w = - 1,
              col_c = 2, col_p = 2\<rparr>],
          gen_disc_formulae = [[(2, 1, 0), (2, 1, 0)]]\<rparr>"
proof -
  have h1: "chi_two [(0, 1)] 2 \<le> 3" and h2: "chi_two [(0, 1), (0, 2)] 3 \<le> 3"
    by (simp_all add: chi_two_def)
  have v: "chi_two [(0, 1)] 2 = 2" "chi_two [(0, 1), (0, 2)] 3 = 2"
    by (simp_all add: chi_two_def)
  note g = generator_dmax2[of chi_two, OF h1 h2, unfolded v]
  show ?thesis by (intro conjI h1 h2 g)
qed

text \<open>The claim as stated fails: the composite table for \<open>dmax = 2\<close> is never empty, and
  with the complexities within \<open>cmax\<close> the prime table has a third row, for a graph on three
  vertices.\<close>

theorem generator_dmax2_counterexample:
  "\<not> (\<exists>chi G. Generator chi 2 None None None None DefaultDmaxs = Inr G \<and>
                 length (gen_c_specs G) = 2 \<and> gen_disc_specs G = []) \<and>
   (\<exists>G. Generator chi_two 2 None None None None DefaultDmaxs = Inr G \<and>
        length (gen_c_specs G) = 3 \<and> col_n (gen_c_specs G ! 2) = 3 \<and>
        length (gen_disc_specs G) = 1)"
proof (rule conjI)
  show "\<not> (\<exists>chi G. Generator chi 2 None None None None DefaultDmaxs = Inr G \<and>
                 length (gen_c_specs G) = 2 \<and> gen_disc_specs G = [])"
  proof
    assume "\<exists>chi G. Generator chi 2 None None None None DefaultDmaxs = Inr G \<and>
                 length (gen_c_specs G) = 2 \<and> gen_disc_specs G = []"
    then obtain chi G where run: "Generator chi 2 None None None None DefaultDmaxs = Inr G"
      and empty: "gen_disc_specs G = []"
      by blast
    from generator2_composite[OF run] empty show False
      by (simp add: example_disc2_def)
  qed
next
  have h1: "chi_two [(0, 1)] 2 \<le> 3" and h2: "chi_two [(0, 1), (0, 2)] 3 \<le> 3"
    by (simp_all add: chi_two_def)
  show "\<exists>G. Generator chi_two 2 None None None None DefaultDmaxs = Inr G \<and>
        length (gen_c_specs G) = 3 \<and> col_n (gen_c_specs G ! 2) = 3 \<and>
        length (gen_disc_specs G) = 1"
    by (rule exI, rule conjI, rule generator2[of chi_two, OF h1 h2])
       (simp add: example_rows2_def example_disc2_def)
qed

text \<open>
  Claim C2 fails on the code. For \<open>dmax = 4\<close> and \<open>nmax = 2\<close>, with the complexity of the
  single edge within \<open>cmax = 2\<close>, the rows 6 and 7 of the full spec table are two composite
  rows with \<open>n = 4\<close> and \<open>d = 4\<close>, for the different formulae \<open>((2,1,0),(2,3,0))\<close> and
  \<open>((2,2,0),(2,2,0))\<close>, and both have \<open>k = 0\<close>: \<open>kcount\<close> starts anew for every \<open>spec\<close>.
\<close>

theorem composite_k_repeats:
  assumes "chi [(0, 1)] 2 \<le> 2"
  shows "\<exists>G. Generator chi 4 (Some 2) None None None DefaultDmaxs = Inr G \<and>
           length (gen_c_specs G) = 4 \<and>
           specs G ! 6 =
             \<lparr>col_n = 4, col_e = 1, col_d = 4, col_v = 1, col_k = 0, col_g = - 1, col_w = - 1,
              col_c = chi [(0, 1)] 2, col_p = 2\<rparr> \<and>
           specs G ! 7 =
             \<lparr>col_n = 4, col_e = 1, col_d = 4, col_v = 1, col_k = 0, col_g = - 1, col_w = - 1,
              col_c = chi [(0, 1)] 2, col_p = 2\<rparr> \<and>
           gen_disc_formulae G ! 2 = [(2, 1, 0), (2, 3, 0)] \<and>
           gen_disc_formulae G ! 3 = [(2, 2, 0), (2, 2, 0)]"
  by (rule exI, rule conjI, rule generator4[of chi, OF assms]) (simp add: example4_rows)

theorem composite_k_repeats_witness:
  "chi_two [(0, 1)] 2 \<le> 2 \<and>
   (\<exists>G. Generator chi_two 4 (Some 2) None None None DefaultDmaxs = Inr G \<and>
        col_n (specs G ! 6) = col_n (specs G ! 7) \<and>
        col_d (specs G ! 6) = col_d (specs G ! 7) \<and>
        col_k (specs G ! 6) = col_k (specs G ! 7) \<and>
        gen_disc_formulae G ! 2 \<noteq> gen_disc_formulae G ! 3)"
proof -
  have h: "chi_two [(0, 1)] 2 \<le> 2" by (simp add: chi_two_def)
  from composite_k_repeats[of chi_two, OF h] obtain G where
    "Generator chi_two 4 (Some 2) None None None DefaultDmaxs = Inr G"
    and "specs G ! 6 =
      \<lparr>col_n = 4, col_e = 1, col_d = 4, col_v = 1, col_k = 0, col_g = - 1, col_w = - 1,
       col_c = chi_two [(0, 1)] 2, col_p = 2\<rparr>"
    and "specs G ! 7 =
      \<lparr>col_n = 4, col_e = 1, col_d = 4, col_v = 1, col_k = 0, col_g = - 1, col_w = - 1,
       col_c = chi_two [(0, 1)] 2, col_p = 2\<rparr>"
    and "gen_disc_formulae G ! 2 = [(2, 1, 0), (2, 3, 0)]"
    and "gen_disc_formulae G ! 3 = [(2, 2, 0), (2, 2, 0)]"
    by (elim exE conjE) (rule that)
  then have "Generator chi_two 4 (Some 2) None None None DefaultDmaxs = Inr G \<and>
        col_n (specs G ! 6) = col_n (specs G ! 7) \<and>
        col_d (specs G ! 6) = col_d (specs G ! 7) \<and>
        col_k (specs G ! 6) = col_k (specs G ! 7) \<and>
        gen_disc_formulae G ! 2 \<noteq> gen_disc_formulae G ! 3"
    by simp
  then have "\<exists>G. Generator chi_two 4 (Some 2) None None None DefaultDmaxs = Inr G \<and>
        col_n (specs G ! 6) = col_n (specs G ! 7) \<and>
        col_d (specs G ! 6) = col_d (specs G ! 7) \<and>
        col_k (specs G ! 6) = col_k (specs G ! 7) \<and>
        gen_disc_formulae G ! 2 \<noteq> gen_disc_formulae G ! 3"
    by (rule exI)
  with h show ?thesis by (rule conjI)
qed

text \<open>
  Claim C4 fails on the code. A jet whose two parents have equal transverse momentum has
  \<open>z = 1/2\<close>; with \<open>zcut = 1/2\<close> and \<open>beta = 0\<close> the condition \<open>z > zcut\<close> of the
  documentation does not hold, and \<open>softdrop\<close> returns the jet itself: the code compares
  with \<open>\<ge>\<close>.
\<close>

theorem softdrop_returns_jet_at_equality:
  "softdrop delta_R pow (Merged 2 (Particle 1) (Particle 1)) (1 / 2) 0 1 =
     Inr (Merged 2 (Particle 1) (Particle 1)) \<and>
   \<not> (min (pt (Particle 1)) (pt (Particle 1)) / (pt (Particle 1) + pt (Particle 1)) > 1 / 2)"
  by simp

end
